theory Spec2Isabelle
  imports Main "HOL-Library.Product_Lexorder" "HOL-Library.Multiset"
begin

section \<open>Data model of the gap filler\<close>

text \<open>
  An episode key is the Python tuple \<^verbatim>\<open>(season, episode)\<close>; tuples of integers are
  compared lexicographically, which is the order of \<open>Product_Lexorder\<close>.
\<close>

type_synonym ekey = "int \<times> int"

text \<open>
  An episode dictionary as \<^verbatim>\<open>get_all_episodes\<close> builds it. The identifiers are
  opaque; \<^verbatim>\<open>first_aired\<close> is a string or \<^verbatim>\<open>None\<close>.
\<close>

record 'i ep =
  season :: int
  episode :: int
  ids :: 'i
  first_aired :: "string option"

text \<open>The dictionary \<^verbatim>\<open>gap_info\<close> of \<^verbatim>\<open>find_all_missing_episodes\<close>.\<close>

record 'i gap_info = "'i ep" +
  prev_watched :: "ekey option"
  next_watched :: "ekey option"
  prev_watched_at :: "string option"
  next_watched_at :: "string option"

text \<open>The result dictionary with its three lists.\<close>

record 'i missing =
  beginning :: "'i ep list"
  gaps :: "'i gap_info list"
  ending :: "'i ep list"

definition ep_tuple :: "('i, 'm) ep_scheme \<Rightarrow> ekey" where
  "ep_tuple e = (season e, episode e)"

text \<open>
  A watch history (a Python dict from keys to timestamp strings) is an association list in
  insertion order; \<^verbatim>\<open>d.get(k)\<close> is \<open>map_of d k\<close> and \<^verbatim>\<open>d.values()\<close> is \<open>map snd d\<close>.
\<close>

type_synonym history = "(ekey \<times> string) list"

section \<open>The gap detector\<close>

text \<open>
  The inner scan of \<^verbatim>\<open>find_all_missing_episodes\<close>:
  \<^verbatim>\<open>
  for watched in watched_list:
      if watched < ep_tuple:
          prev_watched = watched
      elif watched > ep_tuple and next_watched is None:
          next_watched = watched
          break
  \<close>
  The two option arguments are the current values of \<^verbatim>\<open>prev_watched\<close> and
  \<^verbatim>\<open>next_watched\<close>.
\<close>

fun scan_watched :: "ekey list \<Rightarrow> ekey \<Rightarrow> ekey option \<Rightarrow> ekey option \<Rightarrow> ekey option \<times> ekey option" where
  "scan_watched [] t p n = (p, n)"
| "scan_watched (w # ws) t p n =
     (if w < t then scan_watched ws t (Some w) n
      else if w > t \<and> n = None then (p, Some w)
      else scan_watched ws t p n)"

text \<open>
  The branch "It's a gap" of the loop body: the neighbour scan and the dictionary
  \<^verbatim>\<open>gap_info\<close>. A key tuple is never falsy, so
  \<^verbatim>\<open>watch_history.get(prev_watched) if prev_watched else None\<close> looks the history up
  exactly when the scan found a neighbour.
\<close>

definition make_gap_info :: "ekey list \<Rightarrow> history \<Rightarrow> 'i ep \<Rightarrow> 'i gap_info" where
  "make_gap_info wl h e =
     (let (p, n) = scan_watched wl (season e, episode e) None None in
      \<lparr>season = season e, episode = episode e, ids = ids e,
       first_aired = first_aired e,
       prev_watched = p, next_watched = n,
       prev_watched_at = (case p of None \<Rightarrow> None | Some k \<Rightarrow> map_of h k),
       next_watched_at = (case n of None \<Rightarrow> None | Some k \<Rightarrow> map_of h k)\<rparr>)"

text \<open>
  The body of the loop over \<^verbatim>\<open>all_episodes\<close>, for one episode. \<open>W\<close> is the watched set,
  \<open>wl\<close> the sorted list of its members, \<open>fw\<close> and \<open>lw\<close> its first and last element.
\<close>

definition categorize ::
  "ekey set \<Rightarrow> ekey list \<Rightarrow> ekey \<Rightarrow> ekey \<Rightarrow> history \<Rightarrow> 'i missing \<Rightarrow> 'i ep \<Rightarrow> 'i missing" where
  "categorize W wl fw lw h r e =
     (let t = (season e, episode e) in
      if t \<in> W then r
      else if t < fw then r\<lparr>beginning := beginning r @ [e]\<rparr>
      else if t > lw then r\<lparr>ending := ending r @ [e]\<rparr>
      else r\<lparr>gaps := gaps r @ [make_gap_info wl h e]\<rparr>)"

text \<open>
  \<^verbatim>\<open>find_all_missing_episodes(watched_episodes, all_episodes, watch_history)\<close>.
  The Python set \<^verbatim>\<open>watched_episodes\<close> is given by any list \<open>ws\<close> of its members, so
  that \<^verbatim>\<open>sorted(list(watched_episodes))\<close> is \<open>sort (remdups ws)\<close> and membership is
  membership in \<open>set ws\<close>. The dictionary \<^verbatim>\<open>episode_map\<close> is built and never read.
\<close>

definition find_all_missing_episodes ::
  "ekey list \<Rightarrow> 'i ep list \<Rightarrow> history \<Rightarrow> 'i missing" where
  "find_all_missing_episodes ws all_episodes h =
     (let watched_list = sort (remdups ws) in
      case watched_list of
        [] \<Rightarrow> \<lparr>beginning = all_episodes, gaps = [], ending = []\<rparr>
      | first_watched # _ \<Rightarrow>
          fold (\<lambda>e r. categorize (set ws) watched_list first_watched (last watched_list) h r e)
            all_episodes \<lparr>beginning = [], gaps = [], ending = []\<rparr>)"

text \<open>The keys of a result, list after list.\<close>

definition part_keys :: "'i missing \<Rightarrow> ekey list" where
  "part_keys r = map ep_tuple (beginning r) @ map ep_tuple (gaps r) @ map ep_tuple (ending r)"

section \<open>Dates and durations\<close>

text \<open>
  A \<^verbatim>\<open>datetime\<close> is either timezone-aware or naive. An aware value is kept as its
  instant, in microseconds since 1970-01-01T00:00:00 UTC; a naive value as the
  microseconds of its wall-clock reading, counted from the same date. Python compares and
  subtracts two aware values by their instants and two naive values by their readings, and
  raises \<^verbatim>\<open>TypeError\<close> for a mixed pair. A \<^verbatim>\<open>timedelta\<close> is a whole number of
  microseconds. The range limits of both types (years 1 to 9999, a thousand million
  days) are not modelled: arithmetic is on unbounded integers.
\<close>

datatype datetime = Datetime (aware: bool) (us: int)

type_synonym timedelta = int

datatype py_error = TypeError | ValueError

definition minutes :: "int \<Rightarrow> timedelta" where
  "minutes n = n * 60000000"

definition hours :: "int \<Rightarrow> timedelta" where
  "hours n = n * 3600000000"

definition days :: "int \<Rightarrow> timedelta" where
  "days n = n * 86400000000"

definition dt_add :: "datetime \<Rightarrow> timedelta \<Rightarrow> datetime" where
  "dt_add d t = Datetime (aware d) (us d + t)"

definition dt_sub :: "datetime \<Rightarrow> timedelta \<Rightarrow> datetime" where
  "dt_sub d t = Datetime (aware d) (us d - t)"

text \<open>\<^verbatim>\<open>a - b\<close> and \<^verbatim>\<open>a < b\<close> on two datetimes.\<close>

definition dt_diff :: "datetime \<Rightarrow> datetime \<Rightarrow> py_error + timedelta" where
  "dt_diff a b = (if aware a = aware b then Inr (us a - us b) else Inl TypeError)"

definition dt_less :: "datetime \<Rightarrow> datetime \<Rightarrow> py_error + bool" where
  "dt_less a b = (if aware a = aware b then Inr (us a < us b) else Inl TypeError)"

text \<open>
  \<^verbatim>\<open>timedelta / int\<close>: the quotient of the microseconds, rounded to the nearest
  microsecond with ties to even (CPython's \<^verbatim>\<open>_divide_and_round\<close>; \<^verbatim>\<open>divmod\<close> floors,
  as \<open>div\<close> and \<open>mod\<close> on \<open>int\<close> do). Every divisor in this program is positive.
\<close>

definition td_truediv :: "timedelta \<Rightarrow> int \<Rightarrow> timedelta" where
  "td_truediv a b =
     (let q = a div b; r = 2 * (a mod b);
          greater_than_half = (if b > 0 then r > b else r < b)
      in if greater_than_half \<or> (r = b \<and> q mod 2 = 1) then q + 1 else q)"

text \<open>
  \<^verbatim>\<open>parse_datetime(dt_str)\<close>. The library function \<^verbatim>\<open>datetime.fromisoformat\<close> is the
  parameter \<open>fromiso\<close>, which is \<open>None\<close> where the library raises; the bare
  \<^verbatim>\<open>except\<close> turns that into \<^verbatim>\<open>None\<close>.
\<close>

definition endswith :: "string \<Rightarrow> string \<Rightarrow> bool" where
  "endswith s suffix = (length suffix \<le> length s \<and> drop (length s - length suffix) s = suffix)"

definition replace_Z :: "string \<Rightarrow> string" where
  "replace_Z s = concat (map (\<lambda>c. if c = CHR ''Z'' then ''+00:00'' else [c]) s)"

definition parse_datetime :: "(string \<Rightarrow> datetime option) \<Rightarrow> string option \<Rightarrow> datetime option" where
  "parse_datetime fromiso dt_str =
     (case dt_str of
        None \<Rightarrow> None
      | Some s \<Rightarrow>
          if s = [] then None
          else fromiso (replace_Z (if endswith s ''Z'' then butlast s @ ''+00:00'' else s)))"

section \<open>The interval estimator\<close>

text \<open>
  \<^verbatim>\<open>sorted\<close> on a list of parse results. A list of fewer than two elements is returned
  without any comparison. Otherwise every element takes part in a comparison, and
  comparing \<^verbatim>\<open>None\<close> with anything, or an aware with a naive datetime, raises
  \<^verbatim>\<open>TypeError\<close>. The sort is stable, as \<open>sort_key\<close> is.
\<close>

definition py_sorted :: "datetime option list \<Rightarrow> py_error + datetime option list" where
  "py_sorted xs =
     (if length xs < 2 then Inr xs
      else case those xs of
             None \<Rightarrow> Inl TypeError
           | Some ds \<Rightarrow>
               if list_all (\<lambda>d. aware d = aware (hd ds)) ds
               then Inr (map Some (sort_key us ds))
               else Inl TypeError)"

text \<open>
  The loop \<^verbatim>\<open>for i in range(1, len(dates))\<close>: the differences
  \<^verbatim>\<open>dates[i] - dates[i-1]\<close> of neighbours that pass the filter
  \<^verbatim>\<open>timedelta(0) < interval < timedelta(days=365)\<close>. Subtracting from or by
  \<^verbatim>\<open>None\<close> raises \<^verbatim>\<open>TypeError\<close>.
\<close>

fun intervals_of :: "datetime option list \<Rightarrow> py_error + timedelta list" where
  "intervals_of (Some a # Some b # ds) =
     (case dt_diff b a of
        Inl e \<Rightarrow> Inl e
      | Inr interval \<Rightarrow>
          (case intervals_of (Some b # ds) of
             Inl e \<Rightarrow> Inl e
           | Inr rest \<Rightarrow>
               Inr ((if 0 < interval \<and> interval < days 365 then [interval] else []) @ rest)))"
| "intervals_of (a # b # ds) = Inl TypeError"
| "intervals_of ds = Inr []"

text \<open>
  \<^verbatim>\<open>calculate_average_interval(watch_history)\<close>. The comprehension keeps the values
  that are non-empty strings, and parses each of them.
\<close>

definition calculate_average_interval ::
  "(string \<Rightarrow> datetime option) \<Rightarrow> history \<Rightarrow> py_error + timedelta" where
  "calculate_average_interval fromiso watch_history =
     (if length watch_history < 2 then Inr (days 2)
      else
        case py_sorted (map (\<lambda>dt. parse_datetime fromiso (Some dt))
                          (filter (\<lambda>dt. dt \<noteq> []) (map snd watch_history))) of
          Inl e \<Rightarrow> Inl e
        | Inr dates \<Rightarrow>
            if length dates < 2 then Inr (days 2)
            else
              (case intervals_of dates of
                 Inl e \<Rightarrow> Inl e
               | Inr intervals \<Rightarrow>
                   if intervals = [] then Inr (days 2)
                   else Inr (td_truediv (sum_list intervals) (int (length intervals)))))"

text \<open>
  A history as the catalogue service sends it: every value that is not the empty string
  parses, to a timezone-aware datetime.
\<close>

definition utc_history :: "(string \<Rightarrow> datetime option) \<Rightarrow> history \<Rightarrow> bool" where
  "utc_history fromiso watch_history =
     list_all (\<lambda>dt. dt = [] \<or>
                 (case parse_datetime fromiso (Some dt) of None \<Rightarrow> False | Some d \<Rightarrow> aware d))
       (map snd watch_history)"

section \<open>The date synthesizer\<close>

text \<open>
  The synthesizer writes \<^verbatim>\<open>proposed_date.isoformat().replace('+00:00', 'Z')\<close> into
  the field \<^verbatim>\<open>calculated_watched_at\<close>. The model keeps the datetime itself, of which
  that string is the rendering. The clock \<^verbatim>\<open>datetime.now()\<close> is the parameter \<open>now\<close>,
  one reading for the whole call.

  A loop \<^verbatim>\<open>for idx, x in enumerate(xs, start)\<close> that computes one value for each
  element and stops at the first exception:
\<close>

fun for_enumerate :: "(nat \<Rightarrow> 'a \<Rightarrow> py_error + 'b) \<Rightarrow> nat \<Rightarrow> 'a list \<Rightarrow> py_error + 'b list" where
  "for_enumerate body idx [] = Inr []"
| "for_enumerate body idx (x # xs) =
     (case body idx x of
        Inl e \<Rightarrow> Inl e
      | Inr y \<Rightarrow>
          (case for_enumerate body (Suc idx) xs of
             Inl e \<Rightarrow> Inl e
           | Inr ys \<Rightarrow> Inr (y # ys)))"

text \<open>
  The block shared by four of the loops:
  \<^verbatim>\<open>
  air_date = parse_datetime(ep['first_aired'])
  if air_date:
      earliest_possible = air_date + timedelta(hours=12)
      if proposed_date < earliest_possible:
          proposed_date = earliest_possible
  \<close>
\<close>

definition clamp_to_air ::
  "(string \<Rightarrow> datetime option) \<Rightarrow> datetime \<Rightarrow> string option \<Rightarrow> py_error + datetime" where
  "clamp_to_air fromiso proposed_date fa =
     (case parse_datetime fromiso fa of
        None \<Rightarrow> Inr proposed_date
      | Some air_date \<Rightarrow>
          (let earliest_possible = dt_add air_date (hours 12) in
           case dt_less proposed_date earliest_possible of
             Inl e \<Rightarrow> Inl e
           | Inr below \<Rightarrow> Inr (if below then earliest_possible else proposed_date)))"

subsection \<open>Gaps\<close>

text \<open>
  The loop body of the branch \<^verbatim>\<open>if prev_date and next_date\<close>. The test
  \<^verbatim>\<open>proposed_date > next_date\<close> stands inside \<^verbatim>\<open>if air_date\<close>.
\<close>

definition gap_date_both ::
  "(string \<Rightarrow> datetime option) \<Rightarrow> datetime \<Rightarrow> datetime \<Rightarrow> timedelta \<Rightarrow> nat \<Rightarrow> nat \<Rightarrow>
   string option \<Rightarrow> py_error + datetime" where
  "gap_date_both fromiso prev_date next_date interval num_episodes idx fa =
     (let proposed_date = dt_add prev_date (interval * int idx) in
      case parse_datetime fromiso fa of
        None \<Rightarrow> Inr proposed_date
      | Some air_date \<Rightarrow>
          (let earliest_possible = dt_add air_date (hours 12) in
           case dt_less proposed_date earliest_possible of
             Inl e \<Rightarrow> Inl e
           | Inr below \<Rightarrow>
               (let proposed_date = (if below then earliest_possible else proposed_date) in
                case dt_less next_date proposed_date of
                  Inl e \<Rightarrow> Inl e
                | Inr past \<Rightarrow>
                    Inr (if past
                         then dt_sub next_date (minutes (30 * (int num_episodes - int idx)))
                         else proposed_date))))"

text \<open>The loop body of the last branch, where neither neighbour has a date.\<close>

definition gap_date_neither ::
  "(string \<Rightarrow> datetime option) \<Rightarrow> datetime \<Rightarrow> nat \<Rightarrow> nat \<Rightarrow> string option \<Rightarrow> datetime" where
  "gap_date_neither fromiso now num_episodes idx fa =
     (case parse_datetime fromiso fa of
        Some air_date \<Rightarrow> dt_add air_date (days (min (int idx + 1) 7) + hours 20)
      | None \<Rightarrow> dt_sub now (days (int num_episodes - int idx)))"

text \<open>
  The body of the loop over \<^verbatim>\<open>gap_groups.items()\<close>, for one group: the dates of the
  group's entries, in the order of the sorted group. The two neighbour dates are read
  from the first entry of the group as the grouping loop appended it, before the sort.
\<close>

definition group_dates ::
  "(string \<Rightarrow> datetime option) \<Rightarrow> datetime \<Rightarrow> ('i, 'm) gap_info_scheme list \<Rightarrow>
   py_error + datetime list" where
  "group_dates fromiso now group_gaps =
     (case group_gaps of
        [] \<Rightarrow> Inr []
      | g0 # _ \<Rightarrow>
          (let prev_date = parse_datetime fromiso (prev_watched_at g0);
               next_date = parse_datetime fromiso (next_watched_at g0);
               sorted_gaps = sort_key ep_tuple group_gaps
           in case (prev_date, next_date) of
                (Some p, Some n) \<Rightarrow>
                  (case dt_diff n p of
                     Inl e \<Rightarrow> Inl e
                   | Inr total_gap \<Rightarrow>
                       (let num_episodes = length sorted_gaps;
                            interval = td_truediv total_gap (int num_episodes + 1)
                        in for_enumerate
                             (\<lambda>idx gap. gap_date_both fromiso p n interval num_episodes idx
                                (first_aired gap))
                             1 sorted_gaps))
              | (Some p, None) \<Rightarrow>
                  for_enumerate
                    (\<lambda>idx gap. clamp_to_air fromiso (dt_add p (days (int idx * 2))) (first_aired gap))
                    1 sorted_gaps
              | (None, Some n) \<Rightarrow>
                  (case for_enumerate
                          (\<lambda>idx gap. clamp_to_air fromiso (dt_sub n (days (int idx * 2)))
                             (first_aired gap))
                          1 (rev sorted_gaps) of
                     Inl e \<Rightarrow> Inl e
                   | Inr ds \<Rightarrow> Inr (rev ds))
              | (None, None) \<Rightarrow>
                  for_enumerate
                    (\<lambda>idx gap. Inr (gap_date_neither fromiso now (length sorted_gaps) idx
                       (first_aired gap)))
                    0 sorted_gaps))"

text \<open>
  The grouping loop: \<^verbatim>\<open>gap_groups\<close> is a dict, kept here as an association list in
  insertion order. The entries carry their position in \<^verbatim>\<open>gaps\<close>, which stands for the
  identity of the dictionary objects the function mutates.
\<close>

fun add_to_group :: "('k \<times> 'a list) list \<Rightarrow> 'k \<Rightarrow> 'a \<Rightarrow> ('k \<times> 'a list) list" where
  "add_to_group [] k x = [(k, [x])]"
| "add_to_group ((k', xs) # rest) k x =
     (if k' = k then (k', xs @ [x]) # rest else (k', xs) # add_to_group rest k x)"

definition gap_groups_of ::
  "(nat \<times> ('i, 'm) gap_info_scheme) list \<Rightarrow>
   ((ekey option \<times> ekey option) \<times> (nat \<times> ('i, 'm) gap_info_scheme) list) list" where
  "gap_groups_of igaps =
     foldl (\<lambda>groups g. add_to_group groups (prev_watched (snd g), next_watched (snd g)) g) [] igaps"

fun process_groups ::
  "(string \<Rightarrow> datetime option) \<Rightarrow> datetime \<Rightarrow>
   ('k \<times> (nat \<times> ('i, 'm) gap_info_scheme) list) list \<Rightarrow> py_error + (nat \<times> datetime) list" where
  "process_groups fromiso now [] = Inr []"
| "process_groups fromiso now ((k, group_gaps) # rest) =
     (case group_dates fromiso now (map snd group_gaps) of
        Inl e \<Rightarrow> Inl e
      | Inr ds \<Rightarrow>
          (case process_groups fromiso now rest of
             Inl e \<Rightarrow> Inl e
           | Inr others \<Rightarrow>
               Inr (zip (map fst (sort_key (ep_tuple \<circ> snd) group_gaps)) ds @ others)))"

text \<open>
  \<^verbatim>\<open>calculate_intelligent_dates_for_gaps(gaps)\<close> returns the list it was given, each
  entry with its \<^verbatim>\<open>calculated_watched_at\<close> (\<open>None\<close> would be an entry that no group
  wrote to).
\<close>

definition calculate_intelligent_dates_for_gaps ::
  "(string \<Rightarrow> datetime option) \<Rightarrow> datetime \<Rightarrow> ('i, 'm) gap_info_scheme list \<Rightarrow>
   py_error + (('i, 'm) gap_info_scheme \<times> datetime option) list" where
  "calculate_intelligent_dates_for_gaps fromiso now gap_list =
     (if gap_list = [] then Inr []
      else case process_groups fromiso now (gap_groups_of (enumerate 0 gap_list)) of
             Inl e \<Rightarrow> Inl e
           | Inr assigned \<Rightarrow> Inr (map (\<lambda>(i, g). (g, map_of assigned i)) (enumerate 0 gap_list)))"

subsection \<open>Beginning and ending\<close>

definition truthy :: "string option \<Rightarrow> bool" where
  "truthy s = (case s of None \<Rightarrow> False | Some t \<Rightarrow> t \<noteq> [])"

text \<open>
  The search loops for an air date: the first entry of the list whose \<^verbatim>\<open>first_aired\<close>
  parses.
\<close>

fun first_air :: "(string \<Rightarrow> datetime option) \<Rightarrow> ('i, 'm) ep_scheme list \<Rightarrow> datetime option" where
  "first_air fromiso [] = None"
| "first_air fromiso (e # es) =
     (case parse_datetime fromiso (first_aired e) of
        Some air_date \<Rightarrow> Some air_date
      | None \<Rightarrow> first_air fromiso es)"

text \<open>
  \<^verbatim>\<open>calculate_dates_for_beginning(episodes, first_watched_date, avg_interval)\<close>.
  First the anchor, computed from the sorted episodes: the parsed first-watched string if
  the string is truthy, else thirty days after the air date found by walking the sorted
  list backwards, else the clock. With a first-watched string that does not parse,
  \<^verbatim>\<open>anchor_date\<close> is \<^verbatim>\<open>None\<close>.
\<close>

definition beginning_anchor ::
  "(string \<Rightarrow> datetime option) \<Rightarrow> datetime \<Rightarrow> ('i, 'm) ep_scheme list \<Rightarrow> string option \<Rightarrow>
   datetime option" where
  "beginning_anchor fromiso now episodes first_watched_date =
     (if truthy first_watched_date then parse_datetime fromiso first_watched_date
      else case first_air fromiso (rev episodes) of
             Some latest_air \<Rightarrow> Some (dt_add latest_air (days 30))
           | None \<Rightarrow> Some now)"

text \<open>
  The body of the loop "work backwards from first watched";
  \<^verbatim>\<open>anchor_date - offset\<close> raises \<^verbatim>\<open>TypeError\<close> when the anchor is \<^verbatim>\<open>None\<close>.
\<close>

definition beginning_date ::
  "(string \<Rightarrow> datetime option) \<Rightarrow> datetime option \<Rightarrow> timedelta \<Rightarrow> nat \<Rightarrow> string option \<Rightarrow>
   py_error + datetime" where
  "beginning_date fromiso anchor_date avg_interval idx fa =
     (case anchor_date of
        None \<Rightarrow> Inl TypeError
      | Some a \<Rightarrow> clamp_to_air fromiso (dt_sub a (avg_interval * int idx)) fa)"

text \<open>The function: the result lists the sorted episodes, each with its date.\<close>

definition calculate_dates_for_beginning ::
  "(string \<Rightarrow> datetime option) \<Rightarrow> datetime \<Rightarrow> ('i, 'm) ep_scheme list \<Rightarrow> string option \<Rightarrow>
   timedelta \<Rightarrow> py_error + (('i, 'm) ep_scheme \<times> datetime) list" where
  "calculate_dates_for_beginning fromiso now episodes first_watched_date avg_interval =
     (let episodes = sort_key ep_tuple episodes;
          anchor_date = beginning_anchor fromiso now episodes first_watched_date
      in case for_enumerate
                (\<lambda>idx ep. beginning_date fromiso anchor_date avg_interval idx (first_aired ep))
                1 (rev episodes) of
           Inl e \<Rightarrow> Inl e
         | Inr ds \<Rightarrow> Inr (zip episodes (rev ds)))"

text \<open>
  \<^verbatim>\<open>calculate_dates_for_ending(episodes, last_watched_date, avg_interval)\<close>, in the same
  three parts.
\<close>

definition ending_anchor ::
  "(string \<Rightarrow> datetime option) \<Rightarrow> datetime \<Rightarrow> ('i, 'm) ep_scheme list \<Rightarrow> string option \<Rightarrow>
   datetime option" where
  "ending_anchor fromiso now episodes last_watched_date =
     (if truthy last_watched_date then parse_datetime fromiso last_watched_date
      else case first_air fromiso episodes of
             Some earliest_air \<Rightarrow> Some (dt_sub earliest_air (days 30))
           | None \<Rightarrow> Some (dt_sub now (days 365)))"

definition ending_date ::
  "(string \<Rightarrow> datetime option) \<Rightarrow> datetime option \<Rightarrow> timedelta \<Rightarrow> nat \<Rightarrow> string option \<Rightarrow>
   py_error + datetime" where
  "ending_date fromiso anchor_date avg_interval idx fa =
     (case anchor_date of
        None \<Rightarrow> Inl TypeError
      | Some a \<Rightarrow> clamp_to_air fromiso (dt_add a (avg_interval * int idx)) fa)"

definition calculate_dates_for_ending ::
  "(string \<Rightarrow> datetime option) \<Rightarrow> datetime \<Rightarrow> ('i, 'm) ep_scheme list \<Rightarrow> string option \<Rightarrow>
   timedelta \<Rightarrow> py_error + (('i, 'm) ep_scheme \<times> datetime) list" where
  "calculate_dates_for_ending fromiso now episodes last_watched_date avg_interval =
     (let episodes = sort_key ep_tuple episodes;
          anchor_date = ending_anchor fromiso now episodes last_watched_date
      in case for_enumerate
                (\<lambda>idx ep. ending_date fromiso anchor_date avg_interval idx (first_aired ep))
                1 episodes of
           Inl e \<Rightarrow> Inl e
         | Inr ds \<Rightarrow> Inr (zip episodes ds))"

section \<open>Statements of the specification\<close>

text \<open>
  The date of the \<open>i\<close>-th entry (counted from 1) of a run of \<open>count\<close> gap entries between
  two known neighbour timestamps, written from the words of the specification: the
  interval is cut into \<open>count + 1\<close> slices, the entry gets \<open>prev_ts + slice * i\<close>, then
  clamp-to-air, and "if clamping pushes the date past \<open>next_ts\<close>" the entry gets
  \<open>next_ts\<close> minus \<open>30 * (count - i)\<close> minutes. \<open>spec_gap_date\<close> reads the condition as
  "the clamp changed the date and the result is past \<open>next_ts\<close>", \<open>spec_gap_date_alt\<close> as
  "the date after the clamp step is past \<open>next_ts\<close>".
\<close>

definition spec_clamped :: "(string \<Rightarrow> datetime option) \<Rightarrow> datetime \<Rightarrow> string option \<Rightarrow> datetime" where
  "spec_clamped fromiso proposed fa =
     (case parse_datetime fromiso fa of
        None \<Rightarrow> proposed
      | Some air \<Rightarrow> if us proposed < us air + hours 12 then dt_add air (hours 12) else proposed)"

definition spec_gap_date ::
  "(string \<Rightarrow> datetime option) \<Rightarrow> datetime \<Rightarrow> datetime \<Rightarrow> nat \<Rightarrow> nat \<Rightarrow> string option \<Rightarrow> datetime" where
  "spec_gap_date fromiso prev_ts next_ts cnt i fa =
     (let slice = td_truediv (us next_ts - us prev_ts) (int cnt + 1);
          proposed = dt_add prev_ts (slice * int i);
          clamped = spec_clamped fromiso proposed fa
      in if clamped \<noteq> proposed \<and> us next_ts < us clamped
         then dt_sub next_ts (minutes (30 * (int cnt - int i)))
         else clamped)"

definition spec_gap_date_alt ::
  "(string \<Rightarrow> datetime option) \<Rightarrow> datetime \<Rightarrow> datetime \<Rightarrow> nat \<Rightarrow> nat \<Rightarrow> string option \<Rightarrow> datetime" where
  "spec_gap_date_alt fromiso prev_ts next_ts cnt i fa =
     (let slice = td_truediv (us next_ts - us prev_ts) (int cnt + 1);
          proposed = dt_add prev_ts (slice * int i);
          clamped = spec_clamped fromiso proposed fa
      in if us next_ts < us clamped
         then dt_sub next_ts (minutes (30 * (int cnt - int i)))
         else clamped)"

text \<open>
  Air dates in episode order: once an entry of the list has an air date that parses,
  every later entry has one too, and it is not earlier.
\<close>

fun air_dates_ordered :: "(string \<Rightarrow> datetime option) \<Rightarrow> string option list \<Rightarrow> bool" where
  "air_dates_ordered fromiso [] = True"
| "air_dates_ordered fromiso (fa # rest) =
     ((case parse_datetime fromiso fa of
         None \<Rightarrow> True
       | Some a \<Rightarrow>
           list_all (\<lambda>fb. case parse_datetime fromiso fb of
                             None \<Rightarrow> False
                           | Some b \<Rightarrow> us a \<le> us b) rest)
      \<and> air_dates_ordered fromiso rest)"

text \<open>A list of dates that never goes back, and one that always goes forward.\<close>

definition non_decreasing :: "datetime list \<Rightarrow> bool" where
  "non_decreasing ds = sorted (map us ds)"

definition increasing :: "datetime list \<Rightarrow> bool" where
  "increasing ds = sorted_wrt (<) (map us ds)"

text \<open>
  The side conditions under which the dates of a gap run keep the episode order. With both
  neighbour timestamps known: the gap is at least \<open>count * (count + 1) / 2\<close>
  microseconds, so that no proposal passes \<open>next_ts\<close>, and no floor (air date plus 12
  hours) is past \<open>next_ts\<close>. With neither known: all entries have an air date that
  parses, or none has. \<open>g0\<close> is the entry the neighbour timestamps are read from.
\<close>

definition gap_run_regular ::
  "(string \<Rightarrow> datetime option) \<Rightarrow> ('i, 'm) gap_info_scheme \<Rightarrow> ('i, 'm) gap_info_scheme list \<Rightarrow> bool" where
  "gap_run_regular fromiso g0 grp =
     (case (parse_datetime fromiso (prev_watched_at g0),
            parse_datetime fromiso (next_watched_at g0)) of
        (Some p, Some n) \<Rightarrow>
          int (length grp) * (int (length grp) + 1) \<le> 2 * (us n - us p)
          \<and> list_all (\<lambda>g. case parse_datetime fromiso (first_aired g) of
                              None \<Rightarrow> True
                            | Some a \<Rightarrow> us a + hours 12 \<le> us n) grp
      | (None, None) \<Rightarrow>
          list_all (\<lambda>g. parse_datetime fromiso (first_aired g) = None) grp
          \<or> list_all (\<lambda>g. parse_datetime fromiso (first_aired g) \<noteq> None) grp
      | _ \<Rightarrow> True)"

section \<open>The selection parser\<close>

text \<open>
  Strings are lists of characters with codes below 256. \<^verbatim>\<open>str.isspace\<close> holds in
  that range for the codes 9 to 13, 28 to 32, 133 and 160.
\<close>

definition is_space :: "char \<Rightarrow> bool" where
  "is_space c = ((of_char c :: nat) \<in> set [9, 10, 11, 12, 13, 28, 29, 30, 31, 32, 133, 160])"

definition py_strip :: "string \<Rightarrow> string" where
  "py_strip s = rev (dropWhile is_space (rev (dropWhile is_space s)))"

text \<open>\<^verbatim>\<open>s.split()\<close>: the maximal runs of characters that are not whitespace.\<close>

fun split_ws :: "string \<Rightarrow> string \<Rightarrow> string list" where
  "split_ws [] cur = (if cur = [] then [] else [cur])"
| "split_ws (c # cs) cur =
     (if is_space c then (if cur = [] then split_ws cs [] else cur # split_ws cs [])
      else split_ws cs (cur @ [c]))"

definition py_split :: "string \<Rightarrow> string list" where
  "py_split s = split_ws s []"

text \<open>\<^verbatim>\<open>s.split(sep)\<close> for a separator of one character: one piece more than separators.\<close>

fun split_on :: "char \<Rightarrow> string \<Rightarrow> string \<Rightarrow> string list" where
  "split_on sep [] cur = [cur]"
| "split_on sep (c # cs) cur =
     (if c = sep then cur # split_on sep cs [] else split_on sep cs (cur @ [c]))"

text \<open>
  \<^verbatim>\<open>int(s)\<close> on a string: surrounding whitespace is dropped, a sign may lead, and the
  rest is decimal digits, with single underscores allowed between digits. \<open>None\<close> is
  \<^verbatim>\<open>ValueError\<close>.
\<close>

definition is_digit :: "char \<Rightarrow> bool" where
  "is_digit c = (48 \<le> (of_char c :: nat) \<and> (of_char c :: nat) \<le> 57)"

definition digit_of :: "char \<Rightarrow> int" where
  "digit_of c = int (of_char c) - 48"

fun int_digits :: "string \<Rightarrow> int \<Rightarrow> int option" where
  "int_digits [] acc = Some acc"
| "int_digits [c] acc = (if is_digit c then Some (acc * 10 + digit_of c) else None)"
| "int_digits (c # d # cs) acc =
     (if is_digit c then int_digits (d # cs) (acc * 10 + digit_of c)
      else if c = CHR ''_'' \<and> is_digit d then int_digits cs (acc * 10 + digit_of d)
      else None)"

text \<open>
  CPython since 3.11, and the security releases of 3.7 to 3.10, refuses with
  \<^verbatim>\<open>ValueError\<close> a decimal string of more than \<^verbatim>\<open>sys.int_info.default_max_str_digits\<close>
  digit characters; leading zeros count, the sign, underscores and whitespace do not.
\<close>

definition max_str_digits :: nat where
  "max_str_digits = 4300"

definition int_unsigned :: "string \<Rightarrow> int option" where
  "int_unsigned s =
     (case s of
        [] \<Rightarrow> None
      | c # cs \<Rightarrow>
          if is_digit c \<and> length (filter is_digit s) \<le> max_str_digits
          then int_digits cs (digit_of c) else None)"

definition py_int :: "string \<Rightarrow> int option" where
  "py_int s =
     (case py_strip s of
        [] \<Rightarrow> None
      | c # cs \<Rightarrow>
          if c = CHR ''-'' then map_option uminus (int_unsigned cs)
          else if c = CHR ''+'' then int_unsigned cs
          else int_unsigned (c # cs))"

text \<open>The lines the parser prints.\<close>

datatype message = Invalid_range string | Invalid string | Error_parsing

text \<open>
  \<^verbatim>\<open>start, end = s.split('-')\<close> followed by \<^verbatim>\<open>start, end = int(start), int(end)\<close>:
  unpacking anything but two pieces raises \<^verbatim>\<open>ValueError\<close>, as \<^verbatim>\<open>int\<close> does.
\<close>

definition parse_range :: "string \<Rightarrow> py_error + int \<times> int" where
  "parse_range s =
     (case split_on (CHR ''-'') s [] of
        [a, b] \<Rightarrow>
          (case py_int a of
             None \<Rightarrow> Inl ValueError
           | Some start \<Rightarrow>
               (case py_int b of None \<Rightarrow> Inl ValueError | Some end \<Rightarrow> Inr (start, end)))
      | _ \<Rightarrow> Inl ValueError)"

text \<open>
  Either range branch of the loop body: the messages printed and the pairs appended to
  \<^verbatim>\<open>selected\<close>.
\<close>

definition select_range ::
  "string \<Rightarrow> string \<Rightarrow> int \<Rightarrow> string \<Rightarrow> py_error + message list \<times> (int \<times> string) list" where
  "select_range part modifier max_num s =
     (case parse_range s of
        Inl e \<Rightarrow> Inl e
      | Inr (start, end) \<Rightarrow>
          if start < 1 \<or> end > max_num \<or> start > end then Inr ([Invalid_range part], [])
          else Inr ([], map (\<lambda>num. (num, modifier)) [start..end]))"

text \<open>The body of the loop \<^verbatim>\<open>for part in parts\<close>.\<close>

definition parse_part ::
  "string \<Rightarrow> int \<Rightarrow> py_error + message list \<times> (int \<times> string) list" where
  "parse_part part max_num =
     (if CHR ''-'' \<in> set part \<and> \<not> (CHR ''b'' \<in> set part \<or> CHR ''e'' \<in> set part)
      then select_range part [] max_num part
      else
        (let (modifier, num_str) =
               (if endswith part ''be'' then (''be'', take (length part - 2) part)
                else if endswith part ''b'' then (''b'', butlast part)
                else if endswith part ''e'' then (''e'', butlast part)
                else ([], part))
         in if CHR ''-'' \<in> set num_str then select_range part modifier max_num num_str
            else
              (case py_int num_str of
                 None \<Rightarrow> Inl ValueError
               | Some num \<Rightarrow>
                   if num < 1 \<or> num > max_num then Inr ([Invalid part], [])
                   else Inr ([], [(num, modifier)]))))"

text \<open>
  The loop inside \<^verbatim>\<open>try\<close>, with the lines printed so far and the list
  \<^verbatim>\<open>selected\<close>; the second component is \<open>None\<close> when a \<^verbatim>\<open>ValueError\<close> left the loop.
\<close>

fun parts_loop ::
  "int \<Rightarrow> string list \<Rightarrow> message list \<Rightarrow> (int \<times> string) list \<Rightarrow>
   message list \<times> (int \<times> string) list option" where
  "parts_loop max_num [] printed selected = (printed, Some selected)"
| "parts_loop max_num (part # parts) printed selected =
     (case parse_part part max_num of
        Inl e \<Rightarrow> (printed, None)
      | Inr (warnings, new) \<Rightarrow> parts_loop max_num parts (printed @ warnings) (selected @ new))"

text \<open>
  \<^verbatim>\<open>parse_selection(input_str, max_num)\<close>: the lines printed and the list returned.
  The handler \<^verbatim>\<open>except ValueError\<close> prints one line and returns the empty list.
\<close>

definition parse_selection :: "string \<Rightarrow> int \<Rightarrow> message list \<times> (int \<times> string) list" where
  "parse_selection input_str max_num =
     (case parts_loop max_num (py_split (py_strip input_str)) [] [] of
        (printed, None) \<Rightarrow> (printed @ [Error_parsing], [])
      | (printed, Some selected) \<Rightarrow> (printed, selected))"

subsection \<open>The shapes of a token\<close>

text \<open>
  The tokens as the specification words them, to be compared with the loop body: a token
  is a body followed by one of the modifiers \<^verbatim>\<open>b\<close>, \<^verbatim>\<open>e\<close>, \<^verbatim>\<open>be\<close> or by nothing. The
  body is a number when it has no \<^verbatim>\<open>-\<close> and \<^verbatim>\<open>int\<close> accepts it, and a range when its
  only \<^verbatim>\<open>-\<close> separates two strings that \<^verbatim>\<open>int\<close> accepts. A token is well formed when
  it can be read in one of these two ways.
\<close>

definition modifiers :: "string list" where
  "modifiers = [[], ''b'', ''e'', ''be'']"

definition number_body :: "string \<Rightarrow> bool" where
  "number_body body = (CHR ''-'' \<notin> set body \<and> py_int body \<noteq> None)"

definition range_body :: "string \<Rightarrow> bool" where
  "range_body body =
     (case split_on (CHR ''-'') body [] of
        [a, b] \<Rightarrow> py_int a \<noteq> None \<and> py_int b \<noteq> None
      | _ \<Rightarrow> False)"

definition well_formed :: "string \<Rightarrow> bool" where
  "well_formed t =
     list_ex (\<lambda>md. endswith t md
                \<and> (number_body (take (length t - length md) t)
                     \<or> range_body (take (length t - length md) t)))
       modifiers"

section \<open>Concrete timestamps\<close>

text \<open>
  The examples need instants and strings that denote them. \<open>days_from_civil\<close> counts the
  days from 1970-01-01 to a date of the proleptic Gregorian calendar, the calendar of
  \<^verbatim>\<open>datetime\<close>.
\<close>

definition days_from_civil :: "int \<Rightarrow> int \<Rightarrow> int \<Rightarrow> int" where
  "days_from_civil y m d =
     (let y' = (if m \<le> 2 then y - 1 else y);
          era = y' div 400;
          yoe = y' - era * 400;
          doy = (153 * (if m > 2 then m - 3 else m + 9) + 2) div 5 + d - 1;
          doe = yoe * 365 + yoe div 4 - yoe div 100 + doy
      in era * 146097 + doe - 719468)"

definition utc :: "int \<Rightarrow> int \<Rightarrow> int \<Rightarrow> int \<Rightarrow> int \<Rightarrow> int \<Rightarrow> datetime" where
  "utc y m d hh mm ss =
     Datetime True (((days_from_civil y m d * 24 + hh) * 60 + mm) * 60000000 + ss * 1000000)"

definition days_in_month :: "int \<Rightarrow> int \<Rightarrow> int" where
  "days_in_month y m =
     (if m = 2 then (if y mod 4 = 0 \<and> (y mod 100 \<noteq> 0 \<or> y mod 400 = 0) then 29 else 28)
      else if m = 4 \<or> m = 6 \<or> m = 9 \<or> m = 11 then 30 else 31)"

definition num_of :: "string \<Rightarrow> int option" where
  "num_of s =
     (if s \<noteq> [] \<and> list_all is_digit s then Some (foldl (\<lambda>a c. a * 10 + digit_of c) 0 s)
      else None)"

text \<open>
  The part of \<^verbatim>\<open>datetime.fromisoformat\<close> that reads the formats
  \<^verbatim>\<open>YYYY-MM-DDTHH:MM:SS+00:00\<close>, \<^verbatim>\<open>YYYY-MM-DDTHH:MM:SS.fff+00:00\<close> and
  \<^verbatim>\<open>YYYY-MM-DDTHH:MM:SS.ffffff+00:00\<close>. It instantiates \<open>fromiso\<close> in the examples,
  none of which uses a string that the library accepts and this function does not.
\<close>

definition fraction_us :: "string \<Rightarrow> int option" where
  "fraction_us frac =
     (case frac of
        [] \<Rightarrow> Some 0
      | c # ds \<Rightarrow>
          if c = CHR ''.'' \<and> length ds = 3 then map_option (\<lambda>v. v * 1000) (num_of ds)
          else if c = CHR ''.'' \<and> length ds = 6 then num_of ds
          else None)"

definition fromisoformat_utc :: "string \<Rightarrow> datetime option" where
  "fromisoformat_utc s =
     (if 25 \<le> length s \<and> map (\<lambda>i. s ! i) [4, 7, 10, 13, 16] = ''--T::''
         \<and> drop (length s - 6) s = ''+00:00''
      then
        (case (num_of (take 4 s), num_of (take 2 (drop 5 s)), num_of (take 2 (drop 8 s)),
               num_of (take 2 (drop 11 s)), num_of (take 2 (drop 14 s)),
               num_of (take 2 (drop 17 s)), fraction_us (take (length s - 25) (drop 19 s))) of
           (Some y, Some m, Some d, Some hh, Some mm, Some ss, Some f) \<Rightarrow>
             if 1 \<le> y \<and> 1 \<le> m \<and> m \<le> 12 \<and> 1 \<le> d \<and> d \<le> days_in_month y m \<and>
                hh < 24 \<and> mm < 60 \<and> ss < 60
             then Some (dt_add (utc y m d hh mm ss) f)
             else None
         | _ \<Rightarrow> None)
      else None)"

text \<open>Episode and gap dictionaries of season 1 for the examples, and a clock reading.\<close>

definition mk_ep :: "int \<Rightarrow> string option \<Rightarrow> unit ep" where
  "mk_ep k fa = \<lparr>season = 1, episode = k, ids = (), first_aired = fa\<rparr>"

definition mk_gap ::
  "int \<Rightarrow> string option \<Rightarrow> int \<Rightarrow> int \<Rightarrow> string option \<Rightarrow> string option \<Rightarrow> unit gap_info" where
  "mk_gap k fa p n pa na =
     \<lparr>season = 1, episode = k, ids = (), first_aired = fa,
      prev_watched = Some (1, p), next_watched = Some (1, n),
      prev_watched_at = pa, next_watched_at = na\<rparr>"

definition clock :: datetime where
  "clock = Datetime False 1700000000000000"

section \<open>Properties of the gap detector\<close>

lemma fold_categorize:
  "fold (\<lambda>e r. categorize W wl fw lw h r e) es r =
     \<lparr>beginning = beginning r @ filter (\<lambda>e. ep_tuple e \<notin> W \<and> ep_tuple e < fw) es,
      gaps = gaps r @ map (make_gap_info wl h)
               (filter (\<lambda>e. ep_tuple e \<notin> W \<and> \<not> ep_tuple e < fw \<and> \<not> ep_tuple e > lw) es),
      ending = ending r @ filter (\<lambda>e. ep_tuple e \<notin> W \<and> \<not> ep_tuple e < fw \<and> ep_tuple e > lw) es\<rparr>"
  by (induction es arbitrary: r) (auto simp: categorize_def ep_tuple_def Let_def)

lemma ep_tuple_make_gap_info: "ep_tuple (make_gap_info wl h e) = ep_tuple e"
  by (simp add: make_gap_info_def ep_tuple_def split: prod.splits)

lemma map_ep_tuple_gaps:
  "map ep_tuple (map (make_gap_info wl h) es) = map ep_tuple es"
  by (simp add: ep_tuple_make_gap_info comp_def)

lemma mset_three_way:
  "mset (map f (filter (\<lambda>e. f e \<notin> S \<and> A e) es)
         @ map f (filter (\<lambda>e. f e \<notin> S \<and> \<not> A e \<and> \<not> B e) es)
         @ map f (filter (\<lambda>e. f e \<notin> S \<and> \<not> A e \<and> B e) es))
     = mset (filter (\<lambda>k. k \<notin> S) (map f es))"
  by (induction es) auto

lemma find_all_missing_nonempty:
  assumes "sort (remdups ws) = fw # rest"
  shows "find_all_missing_episodes ws es h =
     \<lparr>beginning = filter (\<lambda>e. ep_tuple e \<notin> set ws \<and> ep_tuple e < fw) es,
      gaps = map (make_gap_info (sort (remdups ws)) h)
               (filter (\<lambda>e. ep_tuple e \<notin> set ws \<and> \<not> ep_tuple e < fw
                            \<and> \<not> ep_tuple e > last (sort (remdups ws))) es),
      ending = filter (\<lambda>e. ep_tuple e \<notin> set ws \<and> \<not> ep_tuple e < fw
                            \<and> ep_tuple e > last (sort (remdups ws))) es\<rparr>"
  using assms by (simp add: find_all_missing_episodes_def fold_categorize)

lemma find_all_missing_empty:
  assumes "set ws = {}"
  shows "find_all_missing_episodes ws es h = \<lparr>beginning = es, gaps = [], ending = []\<rparr>"
  using assms by (simp add: find_all_missing_episodes_def)

lemma first_le_last:
  assumes "sort (remdups ws) = fw # rest"
  shows "fw \<le> last (sort (remdups ws))"
proof -
  have "sorted (fw # rest)" using assms by (metis sorted_sort)
  then show ?thesis unfolding assms by (cases rest rule: rev_cases) auto
qed

lemma comp_ep_tuple_gap: "ep_tuple \<circ> make_gap_info wl h = ep_tuple"
  by (rule ext) (simp add: ep_tuple_make_gap_info)

lemma mset_part_keys:
  "mset (part_keys (find_all_missing_episodes ws es h))
     = mset (filter (\<lambda>k. k \<notin> set ws) (map ep_tuple es))"
proof (cases "sort (remdups ws)")
  case Nil
  then have "set ws = {}" by (metis set_empty set_remdups set_sort)
  then show ?thesis by (simp add: find_all_missing_empty part_keys_def)
next
  case (Cons fw rest)
  have "part_keys (find_all_missing_episodes ws es h) =
      map ep_tuple (filter (\<lambda>e. ep_tuple e \<notin> set ws \<and> ep_tuple e < fw) es)
      @ map ep_tuple (filter (\<lambda>e. ep_tuple e \<notin> set ws \<and> \<not> ep_tuple e < fw
            \<and> \<not> ep_tuple e > last (sort (remdups ws))) es)
      @ map ep_tuple (filter (\<lambda>e. ep_tuple e \<notin> set ws \<and> \<not> ep_tuple e < fw
            \<and> ep_tuple e > last (sort (remdups ws))) es)"
    unfolding find_all_missing_nonempty [OF Cons] part_keys_def
    by (simp add: comp_ep_tuple_gap)
  then show ?thesis
    by (simp only: mset_three_way)
qed

lemma scan_watched_props:
  assumes "sorted wl" "t \<notin> set wl" "scan_watched wl t p0 None = (p, n)"
  shows "(p = p0 \<and> (\<forall>w\<in>set wl. \<not> w < t)
            \<or> (\<exists>x. p = Some x \<and> x \<in> set wl \<and> x < t \<and> (\<forall>w\<in>set wl. w < t \<longrightarrow> w \<le> x)))
       \<and> (n = None \<and> (\<forall>w\<in>set wl. \<not> t < w)
            \<or> (\<exists>y. n = Some y \<and> y \<in> set wl \<and> t < y \<and> (\<forall>w\<in>set wl. t < w \<longrightarrow> y \<le> w)))"
  using assms
proof (induction wl arbitrary: p0)
  case Nil
  then show ?case by simp
next
  case (Cons w ws)
  have le: "\<forall>v\<in>set ws. w \<le> v" and sws: "sorted ws" and tws: "t \<notin> set ws" and tw: "t \<noteq> w"
    using Cons.prems by auto
  show ?case
  proof (cases "w < t")
    case True
    with Cons.prems have sc: "scan_watched ws t (Some w) None = (p, n)" by simp
    note IH = Cons.IH [OF sws tws sc]
    have P: "\<exists>x. p = Some x \<and> x \<in> set (w # ws) \<and> x < t \<and> (\<forall>v\<in>set (w # ws). v < t \<longrightarrow> v \<le> x)"
    proof -
      from IH have "p = Some w \<and> (\<forall>v\<in>set ws. \<not> v < t)
          \<or> (\<exists>x. p = Some x \<and> x \<in> set ws \<and> x < t \<and> (\<forall>v\<in>set ws. v < t \<longrightarrow> v \<le> x))"
        by blast
      then show ?thesis
      proof
        assume "p = Some w \<and> (\<forall>v\<in>set ws. \<not> v < t)"
        then show ?thesis using True by auto
      next
        assume "\<exists>x. p = Some x \<and> x \<in> set ws \<and> x < t \<and> (\<forall>v\<in>set ws. v < t \<longrightarrow> v \<le> x)"
        then obtain x where x: "p = Some x" "x \<in> set ws" "x < t" "\<forall>v\<in>set ws. v < t \<longrightarrow> v \<le> x"
          by blast
        then have "w \<le> x" using le by blast
        with x show ?thesis by auto
      qed
    qed
    have N: "n = None \<and> (\<forall>v\<in>set (w # ws). \<not> t < v)
            \<or> (\<exists>y. n = Some y \<and> y \<in> set (w # ws) \<and> t < y \<and> (\<forall>v\<in>set (w # ws). t < v \<longrightarrow> y \<le> v))"
    proof -
      from IH have "n = None \<and> (\<forall>v\<in>set ws. \<not> t < v)
            \<or> (\<exists>y. n = Some y \<and> y \<in> set ws \<and> t < y \<and> (\<forall>v\<in>set ws. t < v \<longrightarrow> y \<le> v))"
        by blast
      then show ?thesis
      proof
        assume "n = None \<and> (\<forall>v\<in>set ws. \<not> t < v)"
        then show ?thesis using True by auto
      next
        assume "\<exists>y. n = Some y \<and> y \<in> set ws \<and> t < y \<and> (\<forall>v\<in>set ws. t < v \<longrightarrow> y \<le> v)"
        then obtain y where "n = Some y" "y \<in> set ws" "t < y" "\<forall>v\<in>set ws. t < v \<longrightarrow> y \<le> v"
          by blast
        then show ?thesis using True by (intro disjI2 exI [of _ y]) auto
      qed
    qed
    from P N show ?thesis by blast
  next
    case False
    with tw have "t < w" by auto
    with Cons.prems False have pn: "p = p0" "n = Some w" by auto
    have "\<forall>v\<in>set (w # ws). \<not> v < t" using le \<open>t < w\<close> by auto
    moreover have "\<forall>v\<in>set (w # ws). t < v \<longrightarrow> w \<le> v" using le by auto
    ultimately show ?thesis using pn \<open>t < w\<close> by simp
  qed
qed


lemma sorted_watched: "sorted (sort (remdups ws))" "set (sort (remdups ws)) = set ws"
  by simp_all

lemma gap_entry_neighbours:
  assumes wl: "sort (remdups ws) = fw # rest"
    and t: "ep_tuple e \<notin> set ws" "\<not> ep_tuple e < fw" "\<not> ep_tuple e > last (sort (remdups ws))"
  shows "\<exists>p n. prev_watched (make_gap_info (sort (remdups ws)) h e) = Some p
           \<and> next_watched (make_gap_info (sort (remdups ws)) h e) = Some n
           \<and> prev_watched_at (make_gap_info (sort (remdups ws)) h e) = map_of h p
           \<and> next_watched_at (make_gap_info (sort (remdups ws)) h e) = map_of h n
           \<and> p \<in> set ws \<and> n \<in> set ws \<and> p < ep_tuple e \<and> ep_tuple e < n
           \<and> (\<forall>w\<in>set ws. \<not> (p < w \<and> w < ep_tuple e) \<and> \<not> (ep_tuple e < w \<and> w < n))"
proof -
  let ?wl = "sort (remdups ws)" and ?t = "ep_tuple e"
  obtain p n where sc: "scan_watched ?wl ?t None None = (p, n)" by (cases "scan_watched ?wl ?t None None")
  have fw: "fw \<in> set ws" using wl sorted_watched(2) [of ws] by (metis list.set_intros(1))
  have lw: "last ?wl \<in> set ws" using wl sorted_watched(2) [of ws] by (metis last_in_set list.distinct(1))
  have "fw < ?t" using t(1,2) fw by (metis linorder_neqE)
  have "?t < last ?wl" using t(1,3) lw by (metis linorder_neqE)
  have tn: "?t \<notin> set ?wl" using t(1) by simp
  note props = scan_watched_props [OF sorted_watched(1) tn sc, unfolded sorted_watched(2)]
  from props \<open>fw < ?t\<close> fw obtain x where x: "p = Some x" "x \<in> set ws" "x < ?t" "\<forall>w\<in>set ws. w < ?t \<longrightarrow> w \<le> x"
    by blast
  from props \<open>?t < last ?wl\<close> lw obtain y where y: "n = Some y" "y \<in> set ws" "?t < y" "\<forall>w\<in>set ws. ?t < w \<longrightarrow> y \<le> w"
    by blast
  have g: "make_gap_info ?wl h e = \<lparr>season = season e, episode = episode e, ids = ids e,
       first_aired = first_aired e, prev_watched = Some x, next_watched = Some y,
       prev_watched_at = map_of h x, next_watched_at = map_of h y\<rparr>"
    using sc x(1) y(1) by (simp add: make_gap_info_def ep_tuple_def)
  have "\<forall>w\<in>set ws. \<not> (x < w \<and> w < ?t) \<and> \<not> (?t < w \<and> w < y)"
    using x(4) y(4) by (auto simp: not_less dest: leD)
  then show ?thesis using x y unfolding g by (simp del: ep_tuple_make_gap_info)
qed

text \<open>
  Claim C6. Every gap entry that \<^verbatim>\<open>find_all_missing_episodes\<close> produces records both
  neighbours; they are watched keys, the entry lies strictly between them, and no watched
  key lies strictly between the entry and either of them. The recorded timestamps are the
  history's entries for the two neighbours.
\<close>

theorem gap_neighbours_adjacent:
  assumes "g \<in> set (gaps (find_all_missing_episodes ws all_episodes h))"
  shows "\<exists>p n. prev_watched g = Some p \<and> next_watched g = Some n
           \<and> prev_watched_at g = map_of h p \<and> next_watched_at g = map_of h n
           \<and> p \<in> set ws \<and> n \<in> set ws \<and> p < ep_tuple g \<and> ep_tuple g < n
           \<and> (\<forall>w\<in>set ws. \<not> (p < w \<and> w < ep_tuple g) \<and> \<not> (ep_tuple g < w \<and> w < n))"
proof (cases "sort (remdups ws)")
  case Nil
  then have "set ws = {}" by (metis set_empty set_remdups set_sort)
  with assms show ?thesis by (simp add: find_all_missing_empty)
next
  case (Cons fw rest)
  from assms obtain e where e: "g = make_gap_info (sort (remdups ws)) h e"
    "ep_tuple e \<notin> set ws" "\<not> ep_tuple e < fw" "\<not> ep_tuple e > last (sort (remdups ws))"
    unfolding find_all_missing_nonempty [OF Cons] by auto
  from gap_entry_neighbours [OF Cons e(2,3,4), of h] show ?thesis
    unfolding e(1) ep_tuple_make_gap_info .
qed

text \<open>
  Claim C1. The keys of beginning, gaps and ending are, counted with multiplicity, the keys
  of the episode list that are not watched: nothing is left out and nothing is added. The
  three lists are pairwise disjoint and disjoint from the watched set, so every key of the
  episode list is in exactly one of the four; with distinct keys in the episode list no
  key occurs twice in the result. With an empty watched set every episode is in beginning
  and the other two lists are empty.
\<close>

theorem partition_exhaustive_disjoint:
  fixes ws :: "ekey list" and all_episodes :: "'i ep list" and h :: history
  defines "r \<equiv> find_all_missing_episodes ws all_episodes h"
  defines "B \<equiv> map ep_tuple (beginning r)" and "G \<equiv> map ep_tuple (gaps r)"
    and "E \<equiv> map ep_tuple (ending r)"
  shows "mset (B @ G @ E) = mset (filter (\<lambda>k. k \<notin> set ws) (map ep_tuple all_episodes))
    \<and> set B \<inter> set G = {} \<and> set B \<inter> set E = {} \<and> set G \<inter> set E = {}
    \<and> (set B \<union> set G \<union> set E) \<inter> set ws = {}
    \<and> set B \<union> set G \<union> set E \<union> (set ws \<inter> set (map ep_tuple all_episodes))
        = set (map ep_tuple all_episodes)
    \<and> (distinct (map ep_tuple all_episodes) \<longrightarrow> distinct (B @ G @ E))
    \<and> (set ws = {} \<longrightarrow> beginning r = all_episodes \<and> gaps r = [] \<and> ending r = [])"
proof -
  have m: "mset (B @ G @ E) = mset (filter (\<lambda>k. k \<notin> set ws) (map ep_tuple all_episodes))"
    using mset_part_keys [of ws all_episodes h] by (simp add: part_keys_def B_def G_def E_def r_def)
  have e: "set ws = {} \<longrightarrow> beginning r = all_episodes \<and> gaps r = [] \<and> ending r = []"
    by (simp add: r_def find_all_missing_empty)
  from m have s: "set (B @ G @ E) = set (filter (\<lambda>k. k \<notin> set ws) (map ep_tuple all_episodes))"
    by (rule mset_eq_setD)
  then have w: "(set B \<union> set G \<union> set E) \<inter> set ws = {}" by auto
  from s have u: "set B \<union> set G \<union> set E \<union> (set ws \<inter> set (map ep_tuple all_episodes))
      = set (map ep_tuple all_episodes)"
    by auto
  have d: "distinct (map ep_tuple all_episodes) \<longrightarrow> distinct (B @ G @ E)"
    using m by (metis distinct_filter mset_eq_imp_distinct_iff)
  have j: "set B \<inter> set G = {} \<and> set B \<inter> set E = {} \<and> set G \<inter> set E = {}"
  proof (cases "sort (remdups ws)")
    case Nil
    then have "set ws = {}" by (metis set_empty set_remdups set_sort)
    then show ?thesis
      by (simp add: B_def G_def E_def r_def find_all_missing_empty)
  next
    case (Cons fw rest)
    note le = first_le_last [OF Cons]
    show ?thesis
      unfolding B_def G_def E_def r_def find_all_missing_nonempty [OF Cons]
      using le by (auto simp: ep_tuple_make_gap_info)
  qed
  from m j w u d e show ?thesis by blast
qed

theorem partition_exhaustive_disjoint_witness:
  "(let r = find_all_missing_episodes [(1, 2), (1, 4)]
       [\<lparr>season = 1, episode = 1, ids = (), first_aired = None\<rparr>,
        \<lparr>season = 1, episode = 2, ids = (), first_aired = None\<rparr>,
        \<lparr>season = 1, episode = 3, ids = (), first_aired = None\<rparr>,
        \<lparr>season = 1, episode = 4, ids = (), first_aired = None\<rparr>,
        \<lparr>season = 1, episode = 5, ids = (), first_aired = None\<rparr>] []
    in map ep_tuple (beginning r) = [(1, 1)] \<and> map ep_tuple (gaps r) = [(1, 3)]
       \<and> map ep_tuple (ending r) = [(1, 5)])
   \<and> find_all_missing_episodes []
       [\<lparr>season = 1, episode = 1, ids = (), first_aired = None\<rparr>,
        \<lparr>season = 1, episode = 2, ids = (), first_aired = None\<rparr>] []
      = \<lparr>beginning = [\<lparr>season = 1, episode = 1, ids = (), first_aired = None\<rparr>,
        \<lparr>season = 1, episode = 2, ids = (), first_aired = None\<rparr>], gaps = [], ending = []\<rparr>"
  using partition_exhaustive_disjoint [of "[]" "[\<lparr>season = 1, episode = 1, ids = (), first_aired = None\<rparr>,
        \<lparr>season = 1, episode = 2, ids = (), first_aired = None\<rparr>]" "[]"]
  by (simp add: find_all_missing_episodes_def categorize_def make_gap_info_def ep_tuple_def)

theorem gap_neighbours_adjacent_witness:
  "\<lparr>season = 1, episode = 3, ids = (), first_aired = None, prev_watched = Some (1, 2),
     next_watched = Some (1, 4), prev_watched_at = Some ''a'', next_watched_at = None\<rparr>
    \<in> set (gaps (find_all_missing_episodes [(1, 4), (1, 2)]
       [\<lparr>season = 1, episode = 1, ids = (), first_aired = None\<rparr>,
        \<lparr>season = 1, episode = 3, ids = (), first_aired = None\<rparr>] [((1, 2), ''a'')]))"
  using gap_neighbours_adjacent [of "\<lparr>season = 1, episode = 3, ids = (), first_aired = None, prev_watched = Some (1, 2),
     next_watched = Some (1, 4), prev_watched_at = Some ''a'', next_watched_at = None\<rparr>" "[(1, 4), (1, 2)]"
       "[\<lparr>season = 1, episode = 1, ids = (), first_aired = None\<rparr>,
        \<lparr>season = 1, episode = 3, ids = (), first_aired = None\<rparr>]" "[((1, 2), ''a'')]"]
  by (simp add: find_all_missing_episodes_def categorize_def make_gap_info_def ep_tuple_def)

section \<open>Properties of the interval estimator\<close>

lemma td_truediv_bounds:
  assumes "0 < b" "lo * b \<le> a" "a \<le> hi * b"
  shows "lo \<le> td_truediv a b \<and> td_truediv a b \<le> hi"
proof -
  have "(lo * b) div b \<le> a div b" using assms(1,2) by (intro zdiv_mono1) simp_all
  then have q_lo: "lo \<le> a div b" using assms(1) by simp
  have "a div b \<le> (hi * b) div b" using assms(1,3) by (intro zdiv_mono1) simp_all
  then have q_hi: "a div b \<le> hi" using assms(1) by simp
  have lo: "lo \<le> td_truediv a b"
    using q_lo by (simp add: td_truediv_def Let_def)
  have hi: "td_truediv a b \<le> hi"
  proof (cases "a div b < hi")
    case True
    then show ?thesis by (simp add: td_truediv_def Let_def)
  next
    case False
    with q_hi have q: "a div b = hi" by simp
    have "a = b * (a div b) + a mod b" by simp
    with q assms(3) have "a mod b \<le> 0" by (simp add: mult.commute)
    moreover have "0 \<le> a mod b" using assms(1) by simp
    ultimately have "a mod b = 0" by simp
    then show ?thesis using q assms(1) by (simp add: td_truediv_def Let_def)
  qed
  from lo hi show ?thesis ..
qed

lemma intervals_of_Some_Some:
  "intervals_of (Some a # Some b # ds) = Inr is \<Longrightarrow>
   \<exists>rest. intervals_of (Some b # ds) = Inr rest \<and> aware b = aware a \<and>
     is = (if 0 < us b - us a \<and> us b - us a < days 365 then [us b - us a] else []) @ rest"
  by (simp add: dt_diff_def split: if_splits sum.splits)

lemma intervals_of_range:
  "intervals_of xs = Inr is \<Longrightarrow> i \<in> set is \<Longrightarrow> 0 < i \<and> i < days 365"
proof (induction xs arbitrary: "is")
  case Nil
  then show ?case by simp
next
  case (Cons x xs)
  show ?case
  proof (cases xs)
    case Nil
    with Cons.prems show ?thesis by (cases x) simp_all
  next
    case (Cons y ys)
    show ?thesis
    proof (cases x)
      case None
      with Cons Cons.prems show ?thesis by simp
    next
      case (Some a)
      show ?thesis
      proof (cases y)
        case None
        with Some Cons Cons.prems show ?thesis by simp
      next
        case (Some b)
        from Cons.prems(1) obtain rest where r: "intervals_of (Some b # ys) = Inr rest"
          "is = (if 0 < us b - us a \<and> us b - us a < days 365 then [us b - us a] else []) @ rest"
          unfolding Cons \<open>x = Some a\<close> Some using intervals_of_Some_Some by blast
        from Cons.prems(2) r(2) consider "i \<in> set rest" | "i = us b - us a" "0 < i \<and> i < days 365"
          by (auto split: if_splits)
        then show ?thesis
        proof cases
          case 1
          then show ?thesis using Cons.IH [of rest] r(1) unfolding Cons Some by simp
        next
          case 2
          then show ?thesis by simp
        qed
      qed
    qed
  qed
qed

lemma sum_list_bounds:
  fixes xs :: "int list"
  assumes "\<And>x. x \<in> set xs \<Longrightarrow> lo \<le> x \<and> x \<le> hi"
  shows "lo * int (length xs) \<le> sum_list xs \<and> sum_list xs \<le> hi * int (length xs)"
  using assms
proof (induction xs)
  case Nil
  then show ?case by simp
next
  case (Cons a xs)
  have "lo \<le> a \<and> a \<le> hi" using Cons.prems by simp
  moreover have "lo * int (length xs) \<le> sum_list xs \<and> sum_list xs \<le> hi * int (length xs)"
    using Cons by simp
  ultimately show ?case by (simp add: algebra_simps)
qed

lemma average_in_range:
  assumes "intervals_of xs = Inr is" "is \<noteq> []"
  shows "0 < td_truediv (sum_list is) (int (length is))
       \<and> td_truediv (sum_list is) (int (length is)) < days 365"
proof -
  have "\<And>x. x \<in> set is \<Longrightarrow> 1 \<le> x \<and> x \<le> days 365 - 1"
    using intervals_of_range [OF assms(1)] by fastforce
  from sum_list_bounds [OF this] have
    "1 * int (length is) \<le> sum_list is \<and> sum_list is \<le> (days 365 - 1) * int (length is)"
    by blast
  moreover have "0 < int (length is)" using assms(2) by simp
  ultimately have "1 \<le> td_truediv (sum_list is) (int (length is))
    \<and> td_truediv (sum_list is) (int (length is)) \<le> days 365 - 1"
    using td_truediv_bounds by blast
  then show ?thesis by simp
qed

lemma two_days_in_range: "0 < days 2 \<and> days 2 < days 365"
  by (simp add: days_def)

lemma average_interval_range:
  assumes "calculate_average_interval fromiso h = Inr d"
  shows "0 < d \<and> d < days 365"
proof (cases "length h < 2")
  case True
  with assms have "d = days 2" by (simp add: calculate_average_interval_def)
  then show ?thesis using two_days_in_range by simp
next
  case False
  let ?ps = "py_sorted (map (\<lambda>dt. parse_datetime fromiso (Some dt))
                          (filter (\<lambda>dt. dt \<noteq> []) (map snd h)))"
  from assms False obtain dates where ps: "?ps = Inr dates"
    by (cases ?ps) (simp_all add: calculate_average_interval_def)
  show ?thesis
  proof (cases "length dates < 2")
    case True
    with assms False ps have "d = days 2" by (simp add: calculate_average_interval_def)
    then show ?thesis using two_days_in_range by simp
  next
    case long: False
    from assms False ps long obtain "is" where io: "intervals_of dates = Inr is"
      by (cases "intervals_of dates") (simp_all add: calculate_average_interval_def)
    show ?thesis
    proof (cases "is = []")
      case True
      with assms False ps long io have "d = days 2" by (simp add: calculate_average_interval_def)
      then show ?thesis using two_days_in_range by simp
    next
      case ne: False
      with assms False ps long io have "d = td_truediv (sum_list is) (int (length is))"
        by (simp add: calculate_average_interval_def)
      then show ?thesis using average_in_range [OF io ne] by simp
    qed
  qed
qed


lemma those_map_Some: "those (map Some ds) = Some ds"
  by (induction ds) simp_all

lemma those_None: "None \<in> set xs \<Longrightarrow> those xs = None"
  by (induction xs) (auto split: option.splits)

lemma py_sorted_None:
  assumes "2 \<le> length xs" "None \<in> set xs"
  shows "py_sorted xs = Inl TypeError"
  using assms by (simp add: py_sorted_def those_None)

lemma intervals_of_aware:
  "list_all aware ds \<Longrightarrow> \<exists>is. intervals_of (map Some ds) = Inr is"
proof (induction ds)
  case Nil
  then show ?case by simp
next
  case (Cons a ds)
  show ?case
  proof (cases ds)
    case Nil
    then show ?thesis by simp
  next
    case (Cons b bs)
    with Cons.prems Cons.IH obtain rest where "intervals_of (Some b # map Some bs) = Inr rest"
      by auto
    moreover have "aware a" "aware b" using Cons.prems Cons by simp_all
    ultimately show ?thesis unfolding Cons by (simp add: dt_diff_def)
  qed
qed

lemma utc_history_parsed:
  assumes "utc_history fromiso h"
  shows "\<exists>ds. map (\<lambda>dt. parse_datetime fromiso (Some dt)) (filter (\<lambda>dt. dt \<noteq> []) (map snd h))
           = map Some ds \<and> list_all aware ds"
proof -
  have "\<exists>ds. map (\<lambda>dt. parse_datetime fromiso (Some dt)) (filter (\<lambda>dt. dt \<noteq> []) vs)
           = map Some ds \<and> list_all aware ds"
    if "list_all (\<lambda>dt. dt = [] \<or>
                 (case parse_datetime fromiso (Some dt) of None \<Rightarrow> False | Some d \<Rightarrow> aware d)) vs"
    for vs
    using that
  proof (induction vs)
    case Nil
    show ?case by (rule exI [of _ "[]"]) simp
  next
    case (Cons v vs)
    then obtain ds where ds: "map (\<lambda>dt. parse_datetime fromiso (Some dt)) (filter (\<lambda>dt. dt \<noteq> []) vs)
           = map Some ds" "list_all aware ds" by auto
    show ?case
    proof (cases "v = []")
      case True
      with ds show ?thesis by auto
    next
      case False
      with Cons.prems obtain d where "parse_datetime fromiso (Some v) = Some d" "aware d"
        by (auto split: option.splits)
      with ds False show ?thesis by (intro exI [of _ "d # ds"]) simp
    qed
  qed
  with assms show ?thesis by (simp add: utc_history_def)
qed

lemma py_sorted_aware:
  assumes "list_all aware ds"
  shows "\<exists>ds'. py_sorted (map Some ds) = Inr (map Some ds') \<and> list_all aware ds'
            \<and> length ds' = length ds"
proof (cases "length ds < 2")
  case True
  with assms show ?thesis by (auto simp: py_sorted_def)
next
  case False
  have "list_all (\<lambda>d. aware d = aware (hd ds)) ds"
    using assms False by (cases ds) (auto simp: list_all_iff)
  moreover have "list_all aware (sort_key us ds)" using assms by (simp add: list_all_iff)
  ultimately show ?thesis using False
    by (intro exI [of _ "sort_key us ds"]) (simp add: py_sorted_def those_map_Some)
qed

lemma average_interval_total:
  assumes "utc_history fromiso h"
  shows "\<exists>d. calculate_average_interval fromiso h = Inr d"
proof -
  from utc_history_parsed [OF assms] obtain ds where
    ds: "map (\<lambda>dt. parse_datetime fromiso (Some dt)) (filter (\<lambda>dt. dt \<noteq> []) (map snd h))
           = map Some ds" "list_all aware ds" by blast
  from py_sorted_aware [OF ds(2)] obtain ds' where
    s: "py_sorted (map Some ds) = Inr (map Some ds')" "list_all aware ds'" by blast
  from intervals_of_aware [OF s(2)] obtain "is" where i: "intervals_of (map Some ds') = Inr is"
    by blast
  show ?thesis by (simp add: calculate_average_interval_def ds(1) s(1) i)
qed

lemma average_interval_unparseable:
  assumes "2 \<le> length (filter (\<lambda>dt. dt \<noteq> []) (map snd h))"
    and "s \<in> set (map snd h)" "s \<noteq> []" "parse_datetime fromiso (Some s) = None"
  shows "calculate_average_interval fromiso h = Inl TypeError"
proof -
  let ?xs = "map (\<lambda>dt. parse_datetime fromiso (Some dt)) (filter (\<lambda>dt. dt \<noteq> []) (map snd h))"
  have "length (filter (\<lambda>dt. dt \<noteq> []) (map snd h)) \<le> length (map snd h)"
    by (rule length_filter_le)
  also have "\<dots> = length h" by simp
  finally have l: "\<not> length h < 2" using assms(1) by linarith
  have "None \<in> set ?xs" using assms(2-4) by (force simp: image_iff)
  moreover have "2 \<le> length ?xs" using assms(1) by simp
  ultimately have "py_sorted ?xs = Inl TypeError" by (rule py_sorted_None [rotated])
  with l show ?thesis by (simp add: calculate_average_interval_def)
qed

text \<open>
  Claim C9. Whatever \<^verbatim>\<open>calculate_average_interval\<close> returns is strictly positive and
  strictly less than 365 days: the default of two days, or the rounded mean of intervals
  that each lie strictly between zero and 365 days. It returns for every history whose
  non-empty values parse to timezone-aware datetimes. (A value that does not parse makes
  the sort raise, which is the subject of claim C5.)
\<close>

theorem average_interval_positive_below_year:
  "(\<forall>d. calculate_average_interval fromiso h = Inr d \<longrightarrow> 0 < d \<and> d < days 365)
   \<and> (utc_history fromiso h \<longrightarrow> (\<exists>d. calculate_average_interval fromiso h = Inr d))"
  using average_interval_range average_interval_total by blast

theorem average_interval_positive_below_year_witness:
  "utc_history fromisoformat_utc
     [((1, 1), ''2024-01-01T00:00:00Z''), ((1, 2), ''2024-01-03T00:00:00Z''),
      ((1, 3), ''2024-01-05T00:00:00Z'')]
   \<and> calculate_average_interval fromisoformat_utc
     [((1, 1), ''2024-01-01T00:00:00Z''), ((1, 2), ''2024-01-03T00:00:00Z''),
      ((1, 3), ''2024-01-05T00:00:00Z'')] = Inr (days 2)
   \<and> 0 < days 2 \<and> days 2 < days 365"
proof -
  let ?h = "[((1, 1), ''2024-01-01T00:00:00Z''), ((1, 2), ''2024-01-03T00:00:00Z''),
      ((1, 3), ''2024-01-05T00:00:00Z'')] :: history"
  have u: "utc_history fromisoformat_utc ?h" by code_simp
  have c: "calculate_average_interval fromisoformat_utc ?h = Inr (days 2)" by code_simp
  from average_interval_positive_below_year [of fromisoformat_utc ?h] u c
  show ?thesis by simp
qed

text \<open>
  Claim C5, where the code departs from it. The comprehension of
  \<^verbatim>\<open>calculate_average_interval\<close> drops the empty strings and keeps every parse result,
  \<^verbatim>\<open>None\<close> included. With two or more non-empty values of which one does not parse,
  \<^verbatim>\<open>sorted\<close> compares \<^verbatim>\<open>None\<close> with a datetime and the function raises
  \<^verbatim>\<open>TypeError\<close>; the claim has it sort the timestamps that parse and return a duration.
\<close>

theorem average_interval_raises_on_unparseable:
  assumes "2 \<le> length (filter (\<lambda>dt. dt \<noteq> []) (map snd h))"
    and "s \<in> set (map snd h)" and "s \<noteq> []" and "parse_datetime fromiso (Some s) = None"
  shows "calculate_average_interval fromiso h = Inl TypeError"
  using assms by (rule average_interval_unparseable)

theorem average_interval_raises_on_unparseable_witness:
  "calculate_average_interval fromisoformat_utc
     [((1, 1), ''2024-01-01T00:00:00Z''), ((1, 2), ''not a date'')] = Inl TypeError"
proof -
  let ?h = "[((1, 1), ''2024-01-01T00:00:00Z''), ((1, 2), ''not a date'')] :: history"
  have a: "2 \<le> length (filter (\<lambda>dt. dt \<noteq> []) (map snd ?h))" by simp
  have b: "''not a date'' \<in> set (map snd ?h)" by simp
  have c: "''not a date'' \<noteq> []" by simp
  have d: "parse_datetime fromisoformat_utc (Some ''not a date'') = None" by code_simp
  show ?thesis by (rule average_interval_raises_on_unparseable [OF a b c d])
qed

text \<open>
  On the history of the specification's example the function returns two days exactly,
  and a history of fewer than two entries gives the default.
\<close>

lemma average_interval_example:
  "calculate_average_interval fromisoformat_utc
     [((1, 1), ''2024-01-01T00:00:00Z''), ((1, 2), ''2024-01-03T00:00:00Z''),
      ((1, 3), ''2024-01-05T00:00:00Z'')] = Inr (days 2)"
  by code_simp

lemma average_interval_short: "length h < 2 \<Longrightarrow> calculate_average_interval fromiso h = Inr (days 2)"
  by (simp add: calculate_average_interval_def)

section \<open>Properties of the selection parser\<close>

lemma parts_loop_all_parse:
  "list_all (\<lambda>t. \<not> isl (parse_part t m)) ps \<Longrightarrow>
   parts_loop m ps printed selected =
     (printed @ concat (map (\<lambda>t. fst (projr (parse_part t m))) ps),
      Some (selected @ concat (map (\<lambda>t. snd (projr (parse_part t m))) ps)))"
proof (induction ps arbitrary: printed selected)
  case Nil
  then show ?case by simp
next
  case (Cons p ps)
  then obtain w n where p: "parse_part p m = Inr (w, n)"
    by (cases "parse_part p m") auto
  with Cons show ?case by simp
qed

lemma parts_loop_value_error:
  "\<not> list_all (\<lambda>t. \<not> isl (parse_part t m)) ps \<Longrightarrow>
   snd (parts_loop m ps printed selected) = None"
proof (induction ps arbitrary: printed selected)
  case Nil
  then show ?case by simp
next
  case (Cons p ps)
  show ?case
  proof (cases "parse_part p m")
    case (Inl e)
    then show ?thesis by simp
  next
    case (Inr r)
    with Cons.prems have "\<not> list_all (\<lambda>t. \<not> isl (parse_part t m)) ps" by simp
    from Cons.IH [OF this] Inr show ?thesis by (cases r) simp
  qed
qed

lemma parse_selection_all_parse:
  assumes "list_all (\<lambda>t. \<not> isl (parse_part t m)) (py_split (py_strip s))"
  shows "parse_selection s m =
     (concat (map (\<lambda>t. fst (projr (parse_part t m))) (py_split (py_strip s))),
      concat (map (\<lambda>t. snd (projr (parse_part t m))) (py_split (py_strip s))))"
  by (simp add: parse_selection_def parts_loop_all_parse [OF assms])

lemma parse_selection_value_error:
  assumes "\<not> list_all (\<lambda>t. \<not> isl (parse_part t m)) (py_split (py_strip s))"
  shows "snd (parse_selection s m) = [] \<and> last (fst (parse_selection s m)) = Error_parsing"
  using parts_loop_value_error [OF assms, of "[]" "[]"]
  by (cases "parts_loop m (py_split (py_strip s)) [] []") (simp add: parse_selection_def)

lemma upto_1_3: "[1..3] = [1, 2, 3::int]"
  by (simp add: upto.simps)

lemma py_int_1: "py_int ''1'' = Some 1" by code_simp
lemma py_int_3: "py_int ''3'' = Some 3" by code_simp
lemma parse_range_1_3: "parse_range ''1-3'' = Inr (1, 3)"
  by code_simp

lemma parse_part_range_be:
  assumes "3 \<le> m"
  shows "parse_part ''1-3be'' m = Inr ([], [(1, ''be''), (2, ''be''), (3, ''be'')])"
proof -
  have 1: "endswith ''1-3be'' ''be''" by code_simp
  have 2: "take (length ''1-3be'' - 2) ''1-3be'' = ''1-3''" by simp
  show ?thesis using assms
    by (simp add: parse_part_def 1 select_range_def parse_range_1_3 upto_1_3)
qed

lemma parse_part_5x: "parse_part ''5x'' m = Inl ValueError"
proof -
  have 1: "\<not> endswith ''5x'' ''be''" "\<not> endswith ''5x'' ''b''" "\<not> endswith ''5x'' ''e''" by code_simp+
  have 2: "py_int ''5x'' = None" by code_simp
  show ?thesis by (simp add: parse_part_def 1 2)
qed

lemma endswith_iff: "endswith s suffix \<longleftrightarrow> (\<exists>p. s = p @ suffix)"
proof
  assume "endswith s suffix"
  then have "s = take (length s - length suffix) s @ suffix"
    by (metis append_take_drop_id endswith_def)
  then show "\<exists>p. s = p @ suffix" ..
next
  assume "\<exists>p. s = p @ suffix"
  then show "endswith s suffix" by (auto simp: endswith_def)
qed

lemma endswith_be_e: "endswith t ''be'' \<Longrightarrow> endswith t ''e''"
  unfolding endswith_iff by (metis append.assoc append_Cons append_Nil)

lemma parse_part_out_of_range:
  assumes "CHR ''-'' \<notin> set t" "\<not> endswith t ''b''" "\<not> endswith t ''e''" "py_int t = Some n"
    "n < 1 \<or> m < n"
  shows "parse_part t m = Inr ([Invalid t], [])"
proof -
  have "\<not> endswith t ''be''" using assms(3) endswith_be_e by blast
  with assms show ?thesis by (auto simp: parse_part_def)
qed

lemma parse_part_bad_ranges:
  "parse_part ''0-3'' 5 = Inr ([Invalid_range ''0-3''], [])"
  "parse_part ''1-2-3'' 5 = Inl ValueError"
  by code_simp+

lemma split_on_no_sep: "sep \<notin> set s \<Longrightarrow> split_on sep s cur = [cur @ s]"
  by (induction s arbitrary: cur) auto

lemma split_on_append:
  "sep \<notin> set a \<Longrightarrow> split_on sep (a @ sep # r) cur = (cur @ a) # split_on sep r []"
  by (induction a arbitrary: cur) auto

lemma split_on_not_Nil: "split_on sep s cur \<noteq> []"
  by (induction s arbitrary: cur) simp_all

lemma split_on_one: "split_on sep s cur = [x] \<Longrightarrow> sep \<notin> set s \<and> x = cur @ s"
proof (induction s arbitrary: cur)
  case Nil
  then show ?case by simp
next
  case (Cons c s)
  show ?case
  proof (cases "c = sep")
    case True
    with Cons.prems show ?thesis by (simp add: split_on_not_Nil)
  next
    case False
    with Cons.prems have "split_on sep s (cur @ [c]) = [x]" by simp
    from Cons.IH [OF this] False show ?thesis by auto
  qed
qed

lemma split_on_two:
  "split_on sep s cur = [x, y] \<Longrightarrow>
   \<exists>a. s = a @ sep # y \<and> sep \<notin> set a \<and> sep \<notin> set y \<and> x = cur @ a"
proof (induction s arbitrary: cur)
  case Nil
  then show ?case by simp
next
  case (Cons c s)
  show ?case
  proof (cases "c = sep")
    case True
    with Cons.prems have "x = cur" "split_on sep s [] = [y]" by simp_all
    with split_on_one [OF this(2)] True show ?thesis by (intro exI [of _ "[]"]) simp
  next
    case False
    with Cons.prems have "split_on sep s (cur @ [c]) = [x, y]" by simp
    from Cons.IH [OF this] obtain a where
      "s = a @ sep # y" "sep \<notin> set a" "sep \<notin> set y" "x = (cur @ [c]) @ a" by blast
    with False show ?thesis by (intro exI [of _ "c # a"]) simp
  qed
qed

lemma split_on_two_iff:
  "split_on sep s [] = [a, b] \<longleftrightarrow> s = a @ sep # b \<and> sep \<notin> set a \<and> sep \<notin> set b"
  using split_on_two [of sep s "[]" a b]
  by (auto simp: split_on_append split_on_no_sep)

lemma int_digits_chars:
  "int_digits cs acc = Some n \<Longrightarrow> c \<in> set cs \<Longrightarrow> is_digit c \<or> c = CHR ''_''"
  by (induction cs acc rule: int_digits.induct) (auto split: if_splits)

lemma int_unsigned_chars:
  "int_unsigned s = Some n \<Longrightarrow> c \<in> set s \<Longrightarrow> is_digit c \<or> c = CHR ''_''"
  by (cases s) (auto simp: int_unsigned_def dest: int_digits_chars split: if_splits)

lemma py_strip_mem: "c \<in> set s \<Longrightarrow> \<not> is_space c \<Longrightarrow> c \<in> set (py_strip s)"
proof -
  assume c: "c \<in> set s" "\<not> is_space c"
  have keep: "c \<in> set (dropWhile is_space xs)" if "c \<in> set xs" for xs
  proof -
    have "xs = takeWhile is_space xs @ dropWhile is_space xs" by simp
    then have "c \<in> set (takeWhile is_space xs) \<or> c \<in> set (dropWhile is_space xs)"
      using that by (metis Un_iff set_append)
    with c(2) show ?thesis by (auto dest: set_takeWhileD)
  qed
  have "c \<in> set (rev (dropWhile is_space s))" using keep [OF c(1)] by simp
  from keep [OF this] show ?thesis by (simp add: py_strip_def)
qed

lemma py_int_chars:
  assumes "py_int s = Some n" "c \<in> set s"
  shows "is_space c \<or> is_digit c \<or> c = CHR ''_'' \<or> c = CHR ''+'' \<or> c = CHR ''-''"
proof (cases "is_space c")
  case True
  then show ?thesis by simp
next
  case False
  have m: "c \<in> set (py_strip s)" using py_strip_mem [OF assms(2) False] .
  then obtain d ds where d: "py_strip s = d # ds" by (cases "py_strip s") auto
  show ?thesis
  proof (cases "d = CHR ''-'' \<or> d = CHR ''+''")
    case True
    with assms(1) d obtain k where "int_unsigned ds = Some k" by (auto simp: py_int_def)
    from int_unsigned_chars [OF this, of c] m d True show ?thesis by auto
  next
    case False
    with assms(1) d have "int_unsigned (d # ds) = Some n" by (simp add: py_int_def)
    from int_unsigned_chars [OF this, of c] m d show ?thesis by auto
  qed
qed

lemma not_be_chars:
  "\<not> is_space (CHR ''b'')" "\<not> is_digit (CHR ''b'')"
  "\<not> is_space (CHR ''e'')" "\<not> is_digit (CHR ''e'')"
  by code_simp+

lemma py_int_no_be:
  assumes "py_int s = Some n"
  shows "CHR ''b'' \<notin> set s" and "CHR ''e'' \<notin> set s"
  using py_int_chars [OF assms, of "CHR ''b''"] py_int_chars [OF assms, of "CHR ''e''"]
  by (auto simp: not_be_chars)

lemma endswith_append: "endswith (p @ suffix) suffix"
  by (simp add: endswith_def)

lemma endswith_set: "endswith s suffix \<Longrightarrow> set suffix \<subseteq> set s"
  unfolding endswith_iff by auto

lemma endswith_last: "endswith (xs @ [c]) (ys @ [d]) \<Longrightarrow> c = d \<and> endswith xs ys"
proof -
  assume "endswith (xs @ [c]) (ys @ [d])"
  then obtain p where "xs @ [c] = (p @ ys) @ [d]" unfolding endswith_iff by auto
  then have "xs = p @ ys" "c = d" by simp_all
  then show ?thesis by (simp add: endswith_append)
qed

lemma take_body: "take (length (body @ md) - length md) (body @ md) = body"
  by simp

lemma parse_part_shape:
  assumes md: "md \<in> set modifiers"
    and nb: "CHR ''b'' \<notin> set body" and ne: "CHR ''e'' \<notin> set body"
  shows "parse_part (body @ md) m =
     (if CHR ''-'' \<in> set body then select_range (body @ md) md m body
      else (case py_int body of
              None \<Rightarrow> Inl ValueError
            | Some num \<Rightarrow>
                if num < 1 \<or> num > m then Inr ([Invalid (body @ md)], [])
                else Inr ([], [(num, md)])))"
proof -
  from md consider "md = []" | "md = ''b''" | "md = ''e''" | "md = ''be''"
    by (auto simp: modifiers_def)
  then show ?thesis
  proof cases
    case 1
    have e: "\<not> endswith body ''be''" "\<not> endswith body ''b''" "\<not> endswith body ''e''"
      using nb ne by (auto dest: endswith_set)
    show ?thesis unfolding 1 using nb ne by (simp add: parse_part_def e split: option.splits)
  next
    case 2
    have e: "\<not> endswith (body @ ''b'') ''be''" "endswith (body @ ''b'') ''b''"
      using endswith_last [of body "CHR ''b''" "''b''" "CHR ''e''"] endswith_append [of body "''b''"]
      by auto
    show ?thesis unfolding 2 by (simp add: parse_part_def e split: option.splits)
  next
    case 3
    have "\<not> endswith body ''b''" using nb by (auto dest: endswith_set)
    then have e: "\<not> endswith (body @ ''e'') ''be''" "\<not> endswith (body @ ''e'') ''b''"
      "endswith (body @ ''e'') ''e''"
      using endswith_last [of body "CHR ''e''" "''b''" "CHR ''e''"]
        endswith_last [of body "CHR ''e''" "[]" "CHR ''b''"] endswith_append [of body "''e''"]
      by auto
    show ?thesis unfolding 3 by (simp add: parse_part_def e split: option.splits)
  next
    case 4
    have e: "endswith (body @ ''be'') ''be''" by (rule endswith_append)
    show ?thesis unfolding 4 by (simp add: parse_part_def e split: option.splits)
  qed
qed

lemma parse_part_number:
  assumes "md \<in> set modifiers" "CHR ''-'' \<notin> set body" "py_int body = Some n"
  shows "parse_part (body @ md) m =
     Inr (if 1 \<le> n \<and> n \<le> m then ([], [(n, md)]) else ([Invalid (body @ md)], []))"
  using parse_part_shape [OF assms(1) py_int_no_be [OF assms(3)], of m] assms(2,3)
  by auto

lemma parse_part_range:
  assumes md: "md \<in> set modifiers"
    and a: "CHR ''-'' \<notin> set a" "py_int a = Some lo"
    and b: "CHR ''-'' \<notin> set b" "py_int b = Some hi"
  shows "parse_part (a @ ''-'' @ b @ md) m =
     Inr (if 1 \<le> lo \<and> hi \<le> m \<and> lo \<le> hi then ([], map (\<lambda>num. (num, md)) [lo..hi])
          else ([Invalid_range (a @ ''-'' @ b @ md)], []))"
proof -
  let ?body = "a @ CHR ''-'' # b"
  have nbe: "CHR ''b'' \<notin> set ?body" "CHR ''e'' \<notin> set ?body"
    using py_int_no_be [OF a(2)] py_int_no_be [OF b(2)] by auto
  have sp: "split_on (CHR ''-'') ?body [] = [a, b]"
    using a(1) b(1) by (simp add: split_on_two_iff)
  have "parse_part (?body @ md) m = select_range (?body @ md) md m ?body"
    using parse_part_shape [OF md nbe, of m] by simp
  also have "\<dots> = Inr (if 1 \<le> lo \<and> hi \<le> m \<and> lo \<le> hi then ([], map (\<lambda>num. (num, md)) [lo..hi])
          else ([Invalid_range (?body @ md)], []))"
    using a(2) b(2) by (auto simp: select_range_def parse_range_def sp)
  finally show ?thesis by simp
qed

lemma well_formed_iff:
  "well_formed t \<longleftrightarrow>
     (\<exists>body md. t = body @ md \<and> md \<in> set modifiers \<and> CHR ''-'' \<notin> set body
        \<and> py_int body \<noteq> None)
     \<or> (\<exists>a b md. t = a @ ''-'' @ b @ md \<and> md \<in> set modifiers
          \<and> CHR ''-'' \<notin> set a \<and> CHR ''-'' \<notin> set b \<and> py_int a \<noteq> None \<and> py_int b \<noteq> None)"
  (is "_ \<longleftrightarrow> ?N \<or> ?R")
proof
  assume "well_formed t"
  then obtain md where md: "md \<in> set modifiers" "endswith t md"
    and body: "number_body (take (length t - length md) t)
               \<or> range_body (take (length t - length md) t)"
    by (auto simp: well_formed_def list_ex_iff)
  define body where "body = take (length t - length md) t"
  have t: "t = body @ md" using md(2) unfolding body_def endswith_def
    by (metis append_take_drop_id)
  from body consider "number_body body" | "range_body body" unfolding body_def by blast
  then show "?N \<or> ?R"
  proof cases
    case 1
    with t md(1) have ?N by (auto simp: number_body_def)
    then show ?thesis ..
  next
    case 2
    then obtain a b where ab: "split_on (CHR ''-'') body [] = [a, b]"
      "py_int a \<noteq> None" "py_int b \<noteq> None"
      by (auto simp: range_body_def split: list.splits)
    from ab(1) have "body = a @ CHR ''-'' # b" "CHR ''-'' \<notin> set a" "CHR ''-'' \<notin> set b"
      by (simp_all add: split_on_two_iff)
    with t md(1) ab(2,3) have ?R by auto
    then show ?thesis ..
  qed
next
  assume "?N \<or> ?R"
  then show "well_formed t"
  proof
    assume ?N
    then obtain body md where "t = body @ md" "md \<in> set modifiers" "CHR ''-'' \<notin> set body"
      "py_int body \<noteq> None" by blast
    then show ?thesis
      unfolding well_formed_def list_ex_iff
      by (intro bexI [of _ md]) (simp_all add: endswith_append number_body_def)
  next
    assume ?R
    then obtain a b md where r: "t = (a @ CHR ''-'' # b) @ md" "md \<in> set modifiers"
      "CHR ''-'' \<notin> set a" "CHR ''-'' \<notin> set b" "py_int a \<noteq> None" "py_int b \<noteq> None" by auto
    have "split_on (CHR ''-'') (a @ CHR ''-'' # b) [] = [a, b]"
      using r(3,4) by (simp add: split_on_two_iff)
    then have "range_body (a @ CHR ''-'' # b)" using r(5,6) by (simp add: range_body_def)
    with r(1,2) show ?thesis
      unfolding well_formed_def list_ex_iff
      by (intro bexI [of _ md]) (simp_all only: endswith_append take_body simp_thms)
  qed
qed

lemma well_formed_parses:
  assumes "well_formed t"
  shows "\<exists>r. parse_part t m = Inr r"
proof -
  from assms [unfolded well_formed_iff] show ?thesis
  proof
    assume "\<exists>body md. t = body @ md \<and> md \<in> set modifiers \<and> CHR ''-'' \<notin> set body
        \<and> py_int body \<noteq> None"
    then obtain body md n where "t = body @ md" "md \<in> set modifiers" "CHR ''-'' \<notin> set body"
      "py_int body = Some n" by auto
    with parse_part_number [OF this(2-4), of m] show ?thesis by simp
  next
    assume "\<exists>a b md. t = a @ ''-'' @ b @ md \<and> md \<in> set modifiers
          \<and> CHR ''-'' \<notin> set a \<and> CHR ''-'' \<notin> set b \<and> py_int a \<noteq> None \<and> py_int b \<noteq> None"
    then obtain a b md lo hi where "t = a @ ''-'' @ b @ md" "md \<in> set modifiers"
      "CHR ''-'' \<notin> set a" "py_int a = Some lo" "CHR ''-'' \<notin> set b" "py_int b = Some hi" by auto
    with parse_part_range [OF this(2-6), of m] show ?thesis by simp
  qed
qed

lemma select_range_Inr: "select_range part md m s = Inr r \<Longrightarrow> range_body s"
  by (auto simp: select_range_def parse_range_def range_body_def
      split: list.splits option.splits sum.splits)

lemma select_range_Inl: "select_range part md m s = Inl e \<Longrightarrow> e = ValueError"
  by (auto simp: select_range_def parse_range_def
      split: list.splits option.splits sum.splits prod.splits if_splits)

lemma parse_part_Inl: "parse_part t m = Inl e \<Longrightarrow> e = ValueError"
  by (auto simp: parse_part_def dest: select_range_Inl split: if_splits option.splits)

lemma well_formed_by:
  assumes "md \<in> set modifiers" "endswith t md"
    "number_body (take (length t - length md) t) \<or> range_body (take (length t - length md) t)"
  shows "well_formed t"
  using assms unfolding well_formed_def list_ex_iff by blast

lemma parse_part_Inr_well_formed:
  assumes "parse_part t m = Inr r"
  shows "well_formed t"
proof (cases "CHR ''-'' \<in> set t \<and> \<not> (CHR ''b'' \<in> set t \<or> CHR ''e'' \<in> set t)")
  case True
  with assms have "select_range t [] m t = Inr r" by (simp add: parse_part_def)
  then have "range_body t" by (rule select_range_Inr)
  then show ?thesis by (intro well_formed_by [of "[]"]) (simp_all add: modifiers_def endswith_def)
next
  case False
  define md where "md = (if endswith t ''be'' then ''be'' else if endswith t ''b'' then ''b''
                         else if endswith t ''e'' then ''e'' else [])"
  define ns where "ns = take (length t - length md) t"
  have choice: "(if endswith t ''be'' then (''be'', take (length t - 2) t)
                 else if endswith t ''b'' then (''b'', butlast t)
                 else if endswith t ''e'' then (''e'', butlast t)
                 else ([], t)) = (md, ns)"
    by (simp add: md_def ns_def butlast_conv_take numeral_2_eq_2)
  have md: "md \<in> set modifiers" "endswith t md"
    by (simp_all add: md_def modifiers_def) (simp add: endswith_def)
  from assms False have res:
    "(if CHR ''-'' \<in> set ns then select_range t md m ns
      else (case py_int ns of
              None \<Rightarrow> Inl ValueError
            | Some num \<Rightarrow> if num < 1 \<or> num > m then Inr ([Invalid t], [])
                           else Inr ([], [(num, md)]))) = Inr r"
    unfolding parse_part_def choice by (auto split: if_splits)
  have "number_body ns \<or> range_body ns"
  proof (cases "CHR ''-'' \<in> set ns")
    case True
    with res have "select_range t md m ns = Inr r" by simp
    then show ?thesis by (auto dest: select_range_Inr)
  next
    case False
    with res have "py_int ns \<noteq> None" by (auto split: option.splits)
    with False show ?thesis by (simp add: number_body_def)
  qed
  then show ?thesis using md unfolding ns_def by (intro well_formed_by [of md]) simp_all
qed

lemma parse_part_error_iff: "parse_part t m = Inl ValueError \<longleftrightarrow> \<not> well_formed t"
proof
  assume "parse_part t m = Inl ValueError"
  then show "\<not> well_formed t" using well_formed_parses [of t m] by auto
next
  assume w: "\<not> well_formed t"
  show "parse_part t m = Inl ValueError"
  proof (cases "parse_part t m")
    case (Inl e)
    with parse_part_Inl [OF Inl] show ?thesis by simp
  next
    case (Inr r)
    with parse_part_Inr_well_formed [OF Inr] w show ?thesis by simp
  qed
qed

lemma isl_parse_part: "(\<lambda>t. \<not> isl (parse_part t m)) = well_formed"
proof (rule ext)
  fix t
  show "(\<not> isl (parse_part t m)) = well_formed t"
    using parse_part_error_iff [of t m] parse_part_Inl [of t m]
    by (cases "parse_part t m") auto
qed

lemma parts_loop_fails:
  "\<not> list_all (\<lambda>t. \<not> isl (parse_part t m)) ps \<Longrightarrow>
   parts_loop m ps printed selected =
     (printed @ concat (map (\<lambda>t. fst (projr (parse_part t m)))
                          (takeWhile (\<lambda>t. \<not> isl (parse_part t m)) ps)), None)"
proof (induction ps arbitrary: printed selected)
  case Nil
  then show ?case by simp
next
  case (Cons p ps)
  show ?case
  proof (cases "parse_part p m")
    case (Inl e)
    then show ?thesis by simp
  next
    case (Inr r)
    with Cons.prems have "\<not> list_all (\<lambda>t. \<not> isl (parse_part t m)) ps" by simp
    from Cons.IH [OF this] Inr show ?thesis by (cases r) simp
  qed
qed

lemma parse_selection_well_formed:
  assumes "list_all well_formed (py_split (py_strip s))"
  shows "parse_selection s m =
     (concat (map (\<lambda>t. fst (projr (parse_part t m))) (py_split (py_strip s))),
      concat (map (\<lambda>t. snd (projr (parse_part t m))) (py_split (py_strip s))))"
  using assms parse_selection_all_parse [of m s] by (simp add: isl_parse_part)

lemma parse_selection_malformed:
  assumes "\<not> list_all well_formed (py_split (py_strip s))"
  shows "parse_selection s m =
     (concat (map (\<lambda>t. fst (projr (parse_part t m)))
                (takeWhile well_formed (py_split (py_strip s)))) @ [Error_parsing], [])"
proof -
  have "\<not> list_all (\<lambda>t. \<not> isl (parse_part t m)) (py_split (py_strip s))"
    using assms by (simp add: isl_parse_part)
  from parts_loop_fails [OF this, of "[]" "[]"] show ?thesis
    by (simp add: parse_selection_def isl_parse_part)
qed

lemma parse_selection_range_be:
  assumes "3 \<le> m"
  shows "parse_selection ''1-3be'' m = ([], [(1, ''be''), (2, ''be''), (3, ''be'')])"
proof -
  have "py_split (py_strip ''1-3be'') = [''1-3be'']" by code_simp
  then show ?thesis by (simp add: parse_selection_def parse_part_range_be [OF assms])
qed

lemma malformed_examples:
  "\<not> well_formed ''5x''" "\<not> well_formed ''1-2-3''" "\<not> well_formed ''-5''"
  by code_simp+

text \<open>\<^verbatim>\<open>int\<close> on a string of digits: its decimal value, up to 4300 digits.\<close>

lemma digit_not_space: "is_digit c \<Longrightarrow> \<not> is_space c"
  by (auto simp: is_digit_def is_space_def)

lemma digit_not_sign: "is_digit c \<Longrightarrow> c \<noteq> CHR ''-'' \<and> c \<noteq> CHR ''+'' \<and> c \<noteq> CHR ''_''"
proof -
  have "\<not> is_digit (CHR ''-'')" "\<not> is_digit (CHR ''+'')" "\<not> is_digit (CHR ''_'')" by code_simp+
  then show "is_digit c \<Longrightarrow> c \<noteq> CHR ''-'' \<and> c \<noteq> CHR ''+'' \<and> c \<noteq> CHR ''_''" by auto
qed

lemma int_digits_all:
  "list_all is_digit cs \<Longrightarrow>
   int_digits cs acc = Some (foldl (\<lambda>a c. a * 10 + digit_of c) acc cs)"
  by (induction cs acc rule: int_digits.induct) simp_all

lemma py_strip_digits: "list_all is_digit ds \<Longrightarrow> py_strip ds = ds"
proof -
  assume d: "list_all is_digit ds"
  have keep: "dropWhile is_space xs = xs" if "list_all is_digit xs" for xs
    using that by (cases xs) (simp_all add: digit_not_space)
  have "list_all is_digit (rev ds)" using d by (simp add: list_all_iff)
  with keep [OF d] keep [of "rev ds"] show ?thesis by (simp add: py_strip_def)
qed

lemma py_int_digits:
  assumes "ds \<noteq> []" "list_all is_digit ds"
  shows "py_int ds = (if length ds \<le> max_str_digits
                      then Some (foldl (\<lambda>a c. a * 10 + digit_of c) 0 ds) else None)"
proof -
  from assms obtain c cs where ds: "ds = c # cs" by (cases ds) auto
  with assms(2) have c: "is_digit c" and cs: "list_all is_digit cs" by simp_all
  have f: "filter is_digit (c # cs) = c # cs" using c cs by (simp add: list_all_iff)
  have "py_int ds = int_unsigned (c # cs)"
    using py_strip_digits [OF assms(2)] digit_not_sign [OF c] by (simp add: py_int_def ds)
  also have "\<dots> = (if length (c # cs) \<le> max_str_digits then int_digits cs (digit_of c) else None)"
    unfolding int_unsigned_def f using c by simp
  finally show ?thesis using int_digits_all [OF cs, of "digit_of c"] by (simp add: ds)
qed

text \<open>
  Claim C8 as stated fails: the token \<^verbatim>\<open>5x\<close> is not skipped. \<^verbatim>\<open>int('5x')\<close> raises
  \<^verbatim>\<open>ValueError\<close> inside the \<^verbatim>\<open>try\<close> that encloses the whole loop, and the handler
  returns the empty list, so the valid token \<^verbatim>\<open>1\<close> beside it is lost.
\<close>

theorem parse_selection_5x_counterexample:
  "parse_selection ''1'' 5 = ([], [(1, [])]) \<and> parse_selection ''1 5x'' 5 = ([Error_parsing], [])"
  by code_simp

text \<open>
  Claim C8, amended. \<^verbatim>\<open>parse_selection\<close> never raises: the loop body fails with
  \<^verbatim>\<open>ValueError\<close> only, which the handler catches. A token made of a number and a
  modifier (\<^verbatim>\<open>b\<close>, \<^verbatim>\<open>e\<close>, \<^verbatim>\<open>be\<close> or none) gives the number with the modifier when the
  number is within \<^verbatim>\<open>1..max_num\<close>, and otherwise the warning \<^verbatim>\<open>Invalid\<close> and nothing
  else. A token made of a range and a modifier gives every number of the range with the
  modifier when \<^verbatim>\<open>1 <= start <= end <= max_num\<close>, and otherwise the warning
  \<^verbatim>\<open>Invalid range\<close> and nothing else. These are the well-formed tokens, and the loop body
  raises \<^verbatim>\<open>ValueError\<close> on exactly the others, such as \<^verbatim>\<open>5x\<close>, \<^verbatim>\<open>1-2-3\<close> and the
  negative number \<^verbatim>\<open>-5\<close>, which is read as a range with an empty start. When every
  token of the input is well formed, the lines printed and the list returned are the
  concatenation, in order, of what each token gives. When one is not, the call prints
  the warnings of the tokens before the first such token and one error line, and returns
  the empty list. The token \<^verbatim>\<open>1-3be\<close> alone expands to \<^verbatim>\<open>[(1,'be'),(2,'be'),(3,'be')]\<close>
  when \<^verbatim>\<open>max_num\<close> is at least 3.
\<close>

theorem parse_selection_tokens:
  "(md \<in> set modifiers \<and> CHR ''-'' \<notin> set body \<and> py_int body = Some n \<longrightarrow>
      parse_part (body @ md) m =
        Inr (if 1 \<le> n \<and> n \<le> m then ([], [(n, md)]) else ([Invalid (body @ md)], [])))
   \<and> (md' \<in> set modifiers \<and> CHR ''-'' \<notin> set a \<and> py_int a = Some lo
        \<and> CHR ''-'' \<notin> set b \<and> py_int b = Some hi \<longrightarrow>
      parse_part (a @ ''-'' @ b @ md') m =
        Inr (if 1 \<le> lo \<and> hi \<le> m \<and> lo \<le> hi then ([], map (\<lambda>num. (num, md')) [lo..hi])
             else ([Invalid_range (a @ ''-'' @ b @ md')], [])))
   \<and> (well_formed t \<longleftrightarrow>
        (\<exists>body md. t = body @ md \<and> md \<in> set modifiers \<and> CHR ''-'' \<notin> set body
           \<and> py_int body \<noteq> None)
        \<or> (\<exists>a b md. t = a @ ''-'' @ b @ md \<and> md \<in> set modifiers
             \<and> CHR ''-'' \<notin> set a \<and> CHR ''-'' \<notin> set b
             \<and> py_int a \<noteq> None \<and> py_int b \<noteq> None))
   \<and> (parse_part t m = Inl ValueError \<longleftrightarrow> \<not> well_formed t)
   \<and> parse_part t m \<noteq> Inl TypeError
   \<and> (list_all well_formed (py_split (py_strip s)) \<longrightarrow>
        parse_selection s m =
          (concat (map (\<lambda>t. fst (projr (parse_part t m))) (py_split (py_strip s))),
           concat (map (\<lambda>t. snd (projr (parse_part t m))) (py_split (py_strip s)))))
   \<and> (\<not> list_all well_formed (py_split (py_strip s')) \<longrightarrow>
        parse_selection s' m =
          (concat (map (\<lambda>t. fst (projr (parse_part t m)))
                     (takeWhile well_formed (py_split (py_strip s')))) @ [Error_parsing], []))
   \<and> (3 \<le> m \<longrightarrow> parse_selection ''1-3be'' m = ([], [(1, ''be''), (2, ''be''), (3, ''be'')]))
   \<and> \<not> well_formed ''5x'' \<and> \<not> well_formed ''1-2-3'' \<and> \<not> well_formed ''-5''"
proof -
  have 1: "md \<in> set modifiers \<and> CHR ''-'' \<notin> set body \<and> py_int body = Some n \<longrightarrow>
      parse_part (body @ md) m =
        Inr (if 1 \<le> n \<and> n \<le> m then ([], [(n, md)]) else ([Invalid (body @ md)], []))"
    using parse_part_number [of md body n m] by blast
  have 2: "md' \<in> set modifiers \<and> CHR ''-'' \<notin> set a \<and> py_int a = Some lo
        \<and> CHR ''-'' \<notin> set b \<and> py_int b = Some hi \<longrightarrow>
      parse_part (a @ ''-'' @ b @ md') m =
        Inr (if 1 \<le> lo \<and> hi \<le> m \<and> lo \<le> hi then ([], map (\<lambda>num. (num, md')) [lo..hi])
             else ([Invalid_range (a @ ''-'' @ b @ md')], []))"
    using parse_part_range [of md' a lo b hi m] by blast
  have 5: "parse_part t m \<noteq> Inl TypeError"
    using parse_part_Inl [of t m TypeError] by auto
  have 6: "list_all well_formed (py_split (py_strip s)) \<longrightarrow>
        parse_selection s m =
          (concat (map (\<lambda>t. fst (projr (parse_part t m))) (py_split (py_strip s))),
           concat (map (\<lambda>t. snd (projr (parse_part t m))) (py_split (py_strip s))))"
    using parse_selection_well_formed [of s m] by blast
  have 7: "\<not> list_all well_formed (py_split (py_strip s')) \<longrightarrow>
        parse_selection s' m =
          (concat (map (\<lambda>t. fst (projr (parse_part t m)))
                     (takeWhile well_formed (py_split (py_strip s')))) @ [Error_parsing], [])"
    using parse_selection_malformed [of s' m] by blast
  have 8: "3 \<le> m \<longrightarrow> parse_selection ''1-3be'' m = ([], [(1, ''be''), (2, ''be''), (3, ''be'')])"
    using parse_selection_range_be [of m] by blast
  show ?thesis
    by (intro conjI 1 2 5 6 7 8 well_formed_iff parse_part_error_iff malformed_examples)
qed

text \<open>
  The theorem at work: numbers and ranges out of range with and without a modifier, an
  input of well-formed tokens, and an input with the token \<^verbatim>\<open>-5\<close>.
\<close>

theorem parse_selection_tokens_witness:
  "parse_part ''9b'' 5 = Inr ([Invalid ''9b''], [])
   \<and> parse_part ''2e'' 5 = Inr ([], [(2, ''e'')])
   \<and> parse_part ''4-9e'' 5 = Inr ([Invalid_range ''4-9e''], [])
   \<and> parse_part ''2-3'' 5 = Inr ([], [(2, []), (3, [])])
   \<and> list_all well_formed (py_split (py_strip ''1 9 4-9 2b 1-3be''))
   \<and> parse_selection ''1 9 4-9 2b 1-3be'' 5
       = ([Invalid ''9'', Invalid_range ''4-9''],
          [(1, []), (2, ''b''), (1, ''be''), (2, ''be''), (3, ''be'')])
   \<and> \<not> list_all well_formed (py_split (py_strip ''9 1 -5 2''))
   \<and> parse_selection ''9 1 -5 2'' 5 = ([Invalid ''9'', Error_parsing], [])
   \<and> parse_selection ''1-3be'' 5 = ([], [(1, ''be''), (2, ''be''), (3, ''be'')])"
proof -
  have m: "''b'' \<in> set modifiers" "''e'' \<in> set modifiers" "[] \<in> set modifiers"
    by (simp_all add: modifiers_def)
  have i: "py_int ''9'' = Some 9" "py_int ''2'' = Some 2" "py_int ''4'' = Some 4"
    "py_int ''3'' = Some 3" by code_simp+
  have u: "[2..3] = [2, 3::int]" by (simp add: upto.simps)
  have w: "list_all well_formed (py_split (py_strip ''1 9 4-9 2b 1-3be''))" by code_simp
  have v: "\<not> list_all well_formed (py_split (py_strip ''9 1 -5 2''))" by code_simp
  have rw: "(concat (map (\<lambda>t. fst (projr (parse_part t 5))) (py_split (py_strip ''1 9 4-9 2b 1-3be''))),
             concat (map (\<lambda>t. snd (projr (parse_part t 5))) (py_split (py_strip ''1 9 4-9 2b 1-3be''))))
        = ([Invalid ''9'', Invalid_range ''4-9''],
           [(1, []), (2, ''b''), (1, ''be''), (2, ''be''), (3, ''be'')])" by code_simp
  have rv: "(concat (map (\<lambda>t. fst (projr (parse_part t 5)))
                     (takeWhile well_formed (py_split (py_strip ''9 1 -5 2'')))) @ [Error_parsing], [])
        = ([Invalid ''9'', Error_parsing], ([] :: (int \<times> string) list))" by code_simp
  note T = parse_selection_tokens [where m = 5]
  have 1: "parse_part ''9b'' 5 = Inr ([Invalid ''9b''], [])"
    using T [where md = "''b''" and body = "''9''" and n = 9, THEN conjunct1] m i by simp
  have 2: "parse_part ''2e'' 5 = Inr ([], [(2, ''e'')])"
    using T [where md = "''e''" and body = "''2''" and n = 2, THEN conjunct1] m i by simp
  have 3: "parse_part ''4-9e'' 5 = Inr ([Invalid_range ''4-9e''], [])"
    using T [where md' = "''e''" and a = "''4''" and lo = 4 and b = "''9''" and hi = 9,
        THEN conjunct2, THEN conjunct1] m i by simp
  have 4: "parse_part ''2-3'' 5 = Inr ([], [(2, []), (3, [])])"
    using T [where md' = "[]" and a = "''2''" and lo = 2 and b = "''3''" and hi = 3,
        THEN conjunct2, THEN conjunct1] m i u by simp
  have 5: "parse_selection ''1 9 4-9 2b 1-3be'' 5
       = ([Invalid ''9'', Invalid_range ''4-9''],
          [(1, []), (2, ''b''), (1, ''be''), (2, ''be''), (3, ''be'')])"
    using T [where s = "''1 9 4-9 2b 1-3be''"] w rw by simp
  have 6: "parse_selection ''9 1 -5 2'' 5 = ([Invalid ''9'', Error_parsing], [])"
    using T [where s' = "''9 1 -5 2''"] v rv by simp
  have 7: "parse_selection ''1-3be'' 5 = ([], [(1, ''be''), (2, ''be''), (3, ''be'')])"
    using T by simp
  from 1 2 3 4 w 5 v 6 7 show ?thesis by blast
qed

section \<open>Properties of the date synthesizer\<close>

lemma for_enumerate_Inr:
  "for_enumerate body i xs = Inr ys \<Longrightarrow>
   length ys = length xs \<and> (\<forall>j<length xs. body (i + j) (xs ! j) = Inr (ys ! j))"
proof (induction xs arbitrary: i ys)
  case Nil
  then show ?case by simp
next
  case (Cons x xs)
  from Cons.prems obtain y ys' where y: "body i x = Inr y"
    "for_enumerate body (Suc i) xs = Inr ys'" "ys = y # ys'"
    by (auto split: sum.splits)
  from Cons.IH [OF y(2)] have IH: "length ys' = length xs"
    "\<forall>j<length xs. body (Suc i + j) (xs ! j) = Inr (ys' ! j)" by simp_all
  show ?case
  proof (intro conjI allI impI)
    show "length ys = length (x # xs)" using IH(1) y(3) by simp
  next
    fix j assume "j < length (x # xs)"
    then show "body (i + j) ((x # xs) ! j) = Inr (ys ! j)"
      using y(1,3) IH(2) by (cases j) simp_all
  qed
qed

lemma for_enumerate_total:
  "for_enumerate (\<lambda>idx x. Inr (g idx x)) i xs = Inr (map (\<lambda>(j, x). g j x) (enumerate i xs))"
  by (induction xs arbitrary: i) simp_all

lemma for_enumerate_cong:
  "(\<And>j. j < length xs \<Longrightarrow> body (i + j) (xs ! j) = body' (i + j) (xs ! j)) \<Longrightarrow>
   for_enumerate body i xs = for_enumerate body' i xs"
proof (induction xs arbitrary: i)
  case Nil
  then show ?case by simp
next
  case (Cons x xs)
  have "body i x = body' i x" using Cons.prems [of 0] by simp
  moreover have "for_enumerate body (Suc i) xs = for_enumerate body' (Suc i) xs"
  proof (rule Cons.IH)
    fix j assume "j < length xs"
    then show "body (Suc i + j) (xs ! j) = body' (Suc i + j) (xs ! j)"
      using Cons.prems [of "Suc j"] by simp
  qed
  ultimately show ?case by (simp split: sum.splits)
qed

lemma td_truediv_near:
  assumes "0 < b"
  shows "2 * a - b \<le> 2 * (b * td_truediv a b) \<and> 2 * (b * td_truediv a b) \<le> 2 * a + b"
proof -
  define q r where "q = a div b" and "r = a mod b"
  have a: "a = b * q + r" and r: "0 \<le> r" "r < b"
    using assms by (simp_all add: q_def r_def)
  show ?thesis
  proof (cases "2 * r > b \<or> (2 * r = b \<and> q mod 2 = 1)")
    case True
    then have t: "td_truediv a b = q + 1"
      using assms by (simp add: td_truediv_def Let_def q_def r_def)
    from True have "b \<le> 2 * r" by auto
    then show ?thesis unfolding t using a r by (simp add: algebra_simps)
  next
    case False
    then have t: "td_truediv a b = q"
      using assms by (auto simp: td_truediv_def Let_def q_def r_def)
    from False have "2 * r \<le> b" by auto
    then show ?thesis unfolding t using a r by (simp add: algebra_simps)
  qed
qed

lemma slice_bounds:
  fixes T c :: int
  assumes "1 \<le> c" "c * (c + 1) < 2 * T"
  defines "s \<equiv> td_truediv T (c + 1)"
  shows "1 \<le> s" and "c * s < T"
proof -
  have b: "0 < c + 1" using assms(1) by simp
  note n = td_truediv_near [OF b, of T, folded s_def]
  have "c + 1 \<le> c * (c + 1)" using assms(1) by (simp add: mult_le_cancel_right1)
  with assms(2) have "0 < 2 * T - (c + 1)" by simp
  with n have "0 < (c + 1) * s" by simp
  with b have "0 < s" by (simp add: zero_less_mult_iff)
  then show "1 \<le> s" by simp
  have "2 * ((c + 1) * (c * s)) = c * (2 * ((c + 1) * s))" by (simp add: algebra_simps)
  also have "\<dots> \<le> c * (2 * T + (c + 1))"
    using n assms(1) by (intro mult_left_mono) simp_all
  also have "\<dots> = 2 * T * c + c * (c + 1)" by (simp add: algebra_simps)
  also have "\<dots> < 2 * T * c + 2 * T" using assms(2) by simp
  also have "\<dots> = 2 * ((c + 1) * T)" by (simp add: algebra_simps)
  finally have "(c + 1) * (c * s) < (c + 1) * T" by simp
  then show "c * s < T" using b by (simp add: mult_less_cancel_left_pos)
qed

lemma group_dates_both:
  assumes "grp = g0 # rest"
    and "parse_datetime fromiso (prev_watched_at g0) = Some p"
    and "parse_datetime fromiso (next_watched_at g0) = Some n"
    and "aware p = aware n"
  shows "group_dates fromiso now grp =
     for_enumerate
       (\<lambda>idx gap. gap_date_both fromiso p n
          (td_truediv (us n - us p) (int (length grp) + 1)) (length grp) idx (first_aired gap))
       1 (sort_key ep_tuple grp)"
  using assms by (simp add: group_dates_def dt_diff_def Let_def)

lemma group_dates_both_mixed:
  assumes "grp = g0 # rest"
    and "parse_datetime fromiso (prev_watched_at g0) = Some p"
    and "parse_datetime fromiso (next_watched_at g0) = Some n"
    and "aware p \<noteq> aware n"
  shows "group_dates fromiso now grp = Inl TypeError"
  using assms by (simp add: group_dates_def dt_diff_def Let_def)

lemma gap_date_both_no_air:
  "parse_datetime fromiso fa = None \<Longrightarrow>
   gap_date_both fromiso p n sl c idx fa = Inr (dt_add p (sl * int idx))"
  by (simp add: gap_date_both_def)

lemma gap_date_both_Inr:
  assumes "gap_date_both fromiso p n sl c idx fa = Inr d"
  shows "d = (case parse_datetime fromiso fa of
                None \<Rightarrow> dt_add p (sl * int idx)
              | Some air \<Rightarrow>
                  if us n < us (spec_clamped fromiso (dt_add p (sl * int idx)) fa)
                  then dt_sub n (minutes (30 * (int c - int idx)))
                  else spec_clamped fromiso (dt_add p (sl * int idx)) fa)"
  using assms
  by (auto simp: gap_date_both_def spec_clamped_def dt_less_def dt_add_def Let_def
      split: option.splits if_splits)

lemma us_dt_add [simp]: "us (dt_add d t) = us d + t" "aware (dt_add d t) = aware d"
  by (simp_all add: dt_add_def)

lemma us_dt_sub [simp]: "us (dt_sub d t) = us d - t" "aware (dt_sub d t) = aware d"
  by (simp_all add: dt_sub_def)

lemma map_enumerate_fst:
  "map (\<lambda>(j, x). g j) (enumerate i xs) = map g [i ..< i + length xs]"
proof -
  have "map (\<lambda>(j, x). g j) (enumerate i xs) = map (g \<circ> fst) (zip [i ..< i + length xs] xs)"
    by (simp add: enumerate_eq_zip case_prod_unfold comp_def)
  also have "\<dots> = map g (map fst (zip [i ..< i + length xs] xs))" by (simp only: map_map)
  also have "map fst (zip [i ..< i + length xs] xs) = [i ..< i + length xs]"
    by (rule map_fst_zip) simp
  finally show ?thesis .
qed

lemma gap_run_no_air:
  assumes grp: "grp = g0 # rest"
    and p: "parse_datetime fromiso (prev_watched_at g0) = Some p"
    and n: "parse_datetime fromiso (next_watched_at g0) = Some n"
    and aw: "aware p = aware n"
    and air: "list_all (\<lambda>g. parse_datetime fromiso (first_aired g) = None) grp"
  shows "group_dates fromiso now grp =
     Inr (map (\<lambda>i. dt_add p (td_truediv (us n - us p) (int (length grp) + 1) * int i))
            [1 ..< Suc (length grp)])"
proof -
  let ?sl = "td_truediv (us n - us p) (int (length grp) + 1)"
  let ?xs = "sort_key ep_tuple grp"
  have "for_enumerate (\<lambda>idx gap. gap_date_both fromiso p n ?sl (length grp) idx (first_aired gap)) 1 ?xs
      = for_enumerate (\<lambda>idx gap. Inr (dt_add p (?sl * int idx))) 1 ?xs"
  proof (rule for_enumerate_cong)
    fix j assume "j < length ?xs"
    then have "?xs ! j \<in> set grp" by (metis nth_mem set_sort)
    with air have "parse_datetime fromiso (first_aired (?xs ! j)) = None"
      by (simp add: list_all_iff)
    then show "gap_date_both fromiso p n ?sl (length grp) (1 + j) (first_aired (?xs ! j))
        = Inr (dt_add p (?sl * int (1 + j)))"
      by (rule gap_date_both_no_air)
  qed
  also have "\<dots> = Inr (map (\<lambda>(j, x). dt_add p (?sl * int j)) (enumerate 1 ?xs))"
    by (rule for_enumerate_total)
  also have "map (\<lambda>(j, x). dt_add p (?sl * int j)) (enumerate 1 ?xs)
      = map (\<lambda>i. dt_add p (?sl * int i)) [1 ..< Suc (length grp)]"
    using map_enumerate_fst [of "\<lambda>i. dt_add p (?sl * int i)" 1 ?xs] by simp
  finally show ?thesis using group_dates_both [OF grp p n aw] by simp
qed

lemma gap_run_no_air_between:
  assumes grp: "grp = g0 # rest"
    and p: "parse_datetime fromiso (prev_watched_at g0) = Some p"
    and n: "parse_datetime fromiso (next_watched_at g0) = Some n"
    and aw: "aware p = aware n"
    and air: "list_all (\<lambda>g. parse_datetime fromiso (first_aired g) = None) grp"
    and big: "int (length grp) * (int (length grp) + 1) < 2 * (us n - us p)"
  shows "\<exists>ds. group_dates fromiso now grp = Inr ds \<and> length ds = length grp
           \<and> increasing ds \<and> list_all (\<lambda>d. us p < us d \<and> us d < us n) ds
           \<and> (\<forall>i<length grp. ds ! i =
                 dt_add p (td_truediv (us n - us p) (int (length grp) + 1) * int (Suc i)))"
proof -
  define c where "c = length grp"
  define s where "s = td_truediv (us n - us p) (int c + 1)"
  define ds where "ds = map (\<lambda>i. dt_add p (s * int i)) [1 ..< Suc c]"
  have c1: "1 \<le> int c" using grp by (simp add: c_def)
  have s1: "1 \<le> s" and cs: "int c * s < us n - us p"
    using slice_bounds [OF c1 big [folded c_def]] by (simp_all add: s_def)
  have g: "group_dates fromiso now grp = Inr ds"
    using gap_run_no_air [OF grp p n aw air] by (simp add: ds_def s_def c_def)
  have len: "length ds = c" by (simp add: ds_def)
  have nth: "ds ! i = dt_add p (s * int (Suc i))" if "i < c" for i
    using that unfolding ds_def by (simp add: nth_map_upt del: upt_Suc)
  have rng: "us p < us d \<and> us d < us n" if "d \<in> set ds" for d
  proof -
    from that obtain i where i: "i < c" "d = ds ! i" by (metis in_set_conv_nth len)
    have pos: "0 < s * int (Suc i)" using s1 by simp
    have "s * int (Suc i) \<le> s * int c" using i(1) s1 by (intro mult_left_mono) simp_all
    also have "\<dots> < us n - us p" using cs by (simp add: mult.commute)
    finally show ?thesis using pos unfolding i(2) nth [OF i(1)] by simp
  qed
  have inc: "increasing ds"
    unfolding increasing_def sorted_wrt_iff_nth_less
  proof (intro allI impI)
    fix i j assume ij: "i < j" "j < length (map us ds)"
    then have "i < c" "j < c" using len by simp_all
    moreover have "s * int (Suc i) < s * int (j + 1)" using ij(1) s1 by simp
    ultimately show "map us ds ! i < map us ds ! j"
      using nth len by simp
  qed
  from g len inc rng nth show ?thesis
    unfolding c_def [symmetric] s_def [symmetric] by (auto simp: list_all_iff)
qed

lemma gap_run_entry:
  assumes grp: "grp = g0 # rest"
    and p: "parse_datetime fromiso (prev_watched_at g0) = Some p"
    and n: "parse_datetime fromiso (next_watched_at g0) = Some n"
    and res: "group_dates fromiso now grp = Inr ds"
    and i: "i < length grp"
  defines "fa \<equiv> first_aired (sort_key ep_tuple grp ! i)"
  defines "proposed \<equiv> dt_add p (td_truediv (us n - us p) (int (length grp) + 1) * int (Suc i))"
  shows "length ds = length grp"
    and "ds ! i = (case parse_datetime fromiso fa of
                None \<Rightarrow> proposed
              | Some air \<Rightarrow>
                  if us n < us (spec_clamped fromiso proposed fa)
                  then dt_sub n (minutes (30 * (int (length grp) - int (Suc i))))
                  else spec_clamped fromiso proposed fa)"
    and "us proposed \<le> us n \<Longrightarrow> ds ! i = spec_gap_date fromiso p n (length grp) (Suc i) fa"
proof -
  have aw: "aware p = aware n"
    using group_dates_both_mixed [OF grp p n, of now] res by auto
  note fe = for_enumerate_Inr [OF res [unfolded group_dates_both [OF grp p n aw]]]
  from fe show len: "length ds = length grp" by simp
  from fe i have "gap_date_both fromiso p n (td_truediv (us n - us p) (int (length grp) + 1))
      (length grp) (Suc i) fa = Inr (ds ! i)"
    by (simp add: fa_def)
  from gap_date_both_Inr [OF this]
  show v: "ds ! i = (case parse_datetime fromiso fa of
                None \<Rightarrow> proposed
              | Some air \<Rightarrow>
                  if us n < us (spec_clamped fromiso proposed fa)
                  then dt_sub n (minutes (30 * (int (length grp) - int (Suc i))))
                  else spec_clamped fromiso proposed fa)"
    by (simp only: proposed_def)
  assume le: "us proposed \<le> us n"
  show "ds ! i = spec_gap_date fromiso p n (length grp) (Suc i) fa"
    unfolding v spec_gap_date_def Let_def proposed_def [symmetric]
    using le by (auto simp: spec_clamped_def split: option.splits)
qed

text \<open>
  Claim C10, amended. In a run whose two neighbour timestamps parse and are comparable,
  with \<open>prev_ts < next_ts\<close>, no entry with a first-aired date that parses, and a gap of
  more than \<open>count * (count + 1) / 2\<close> microseconds, the dates are the multiples of the
  rounded slice, strictly increasing in episode order and strictly between the two
  neighbours.
\<close>

theorem gap_run_strictly_between:
  assumes "grp = g0 # rest"
    and "parse_datetime fromiso (prev_watched_at g0) = Some p"
    and "parse_datetime fromiso (next_watched_at g0) = Some n"
    and "aware p = aware n" and "us p < us n"
    and "list_all (\<lambda>g. parse_datetime fromiso (first_aired g) = None) grp"
    and "int (length grp) * (int (length grp) + 1) < 2 * (us n - us p)"
  shows "\<exists>ds. group_dates fromiso now grp = Inr ds \<and> length ds = length grp
           \<and> increasing ds \<and> list_all (\<lambda>d. us p < us d \<and> us d < us n) ds
           \<and> (\<forall>i<length grp. ds ! i =
                 dt_add p (td_truediv (us n - us p) (int (length grp) + 1) * int (Suc i)))"
  using assms(1-4,6,7) by (rule gap_run_no_air_between)

theorem gap_run_strictly_between_witness:
  "\<exists>ds. group_dates fromisoformat_utc clock
       [mk_gap 2 None 1 4 (Some ''2024-01-01T00:00:00Z'') (Some ''2024-01-04T00:00:00Z''),
        mk_gap 3 None 1 4 (Some ''2024-01-01T00:00:00Z'') (Some ''2024-01-04T00:00:00Z'')] = Inr ds
     \<and> length ds = 2 \<and> increasing ds
     \<and> list_all (\<lambda>d. us (utc 2024 1 1 0 0 0) < us d \<and> us d < us (utc 2024 1 4 0 0 0)) ds"
proof -
  let ?g = "mk_gap 2 None 1 4 (Some ''2024-01-01T00:00:00Z'') (Some ''2024-01-04T00:00:00Z'')"
  let ?r = "[mk_gap 3 None 1 4 (Some ''2024-01-01T00:00:00Z'') (Some ''2024-01-04T00:00:00Z'')]"
  have 1: "parse_datetime fromisoformat_utc (prev_watched_at ?g) = Some (utc 2024 1 1 0 0 0)"
    by code_simp
  have 2: "parse_datetime fromisoformat_utc (next_watched_at ?g) = Some (utc 2024 1 4 0 0 0)"
    by code_simp
  have 3: "aware (utc 2024 1 1 0 0 0) = aware (utc 2024 1 4 0 0 0)" by code_simp
  have 4: "us (utc 2024 1 1 0 0 0) < us (utc 2024 1 4 0 0 0)" by code_simp
  have 5: "list_all (\<lambda>g. parse_datetime fromisoformat_utc (first_aired g) = None) (?g # ?r)"
    by code_simp
  have 6: "int (length (?g # ?r)) * (int (length (?g # ?r)) + 1)
      < 2 * (us (utc 2024 1 4 0 0 0) - us (utc 2024 1 1 0 0 0))"
    by code_simp
  from gap_run_strictly_between [OF refl 1 2 3 4 5 6, of clock] show ?thesis
    by auto
qed

text \<open>
  Claim C10 as stated fails for a gap of a few microseconds: \<^verbatim>\<open>timedelta\<close> division
  rounds the slice to whole microseconds. One entry between two timestamps one microsecond
  apart gets the slice \<open>0\<close> (one half, rounded to even) and so the date \<open>prev_ts\<close> itself.
\<close>

theorem gap_run_rounding_counterexample:
  "parse_datetime fromisoformat_utc (Some ''2024-01-01T00:00:00.000000Z'') = Some (utc 2024 1 1 0 0 0)
   \<and> parse_datetime fromisoformat_utc (Some ''2024-01-01T00:00:00.000001Z'')
       = Some (dt_add (utc 2024 1 1 0 0 0) 1)
   \<and> group_dates fromisoformat_utc clock
       [mk_gap 2 None 1 3 (Some ''2024-01-01T00:00:00.000000Z'')
          (Some ''2024-01-01T00:00:00.000001Z'')] = Inr [utc 2024 1 1 0 0 0]"
  by code_simp

text \<open>
  Claim C4, amended. In a run whose two neighbour timestamps parse, the entry at position
  \<open>i + 1\<close> of the sorted run is proposed \<open>prev_ts + slice * (i + 1)\<close>, where the slice is
  the gap divided by \<open>count + 1\<close> (rounded to the microsecond). An entry without an air
  date keeps the proposal, whatever \<open>next_ts\<close> is. An entry with an air date is clamped
  to air, and if its date is then past \<open>next_ts\<close>, whether or not the clamp changed it,
  it gets \<open>next_ts\<close> minus \<open>30 * (count - (i + 1))\<close> minutes. When the proposal is not
  past \<open>next_ts\<close> this is the formula of the specification. The single gap of the
  specification's example gets 2024-01-03T00:00Z.
\<close>

theorem gap_run_interpolation:
  assumes "grp = g0 # rest"
    and "parse_datetime fromiso (prev_watched_at g0) = Some p"
    and "parse_datetime fromiso (next_watched_at g0) = Some n"
    and "group_dates fromiso now grp = Inr ds"
    and "i < length grp"
  defines "fa \<equiv> first_aired (sort_key ep_tuple grp ! i)"
  defines "proposed \<equiv> dt_add p (td_truediv (us n - us p) (int (length grp) + 1) * int (Suc i))"
  shows "length ds = length grp
    \<and> ds ! i = (case parse_datetime fromiso fa of
                  None \<Rightarrow> proposed
                | Some air \<Rightarrow>
                    if us n < us (spec_clamped fromiso proposed fa)
                    then dt_sub n (minutes (30 * (int (length grp) - int (Suc i))))
                    else spec_clamped fromiso proposed fa)
    \<and> (us proposed \<le> us n \<longrightarrow> ds ! i = spec_gap_date fromiso p n (length grp) (Suc i) fa)
    \<and> group_dates fromisoformat_utc clock
         [mk_gap 2 None 1 3 (Some ''2024-01-01T00:00:00Z'') (Some ''2024-01-05T00:00:00Z'')]
       = Inr [utc 2024 1 3 0 0 0]"
proof -
  have ex: "group_dates fromisoformat_utc clock
         [mk_gap 2 None 1 3 (Some ''2024-01-01T00:00:00Z'') (Some ''2024-01-05T00:00:00Z'')]
       = Inr [utc 2024 1 3 0 0 0]"
    by code_simp
  from gap_run_entry [OF assms(1-5)] ex show ?thesis
    unfolding fa_def proposed_def by blast
qed

theorem gap_run_interpolation_witness:
  "parse_datetime fromisoformat_utc (Some ''2024-01-01T00:00:00Z'') = Some (utc 2024 1 1 0 0 0)
   \<and> parse_datetime fromisoformat_utc (Some ''2024-01-05T00:00:00Z'') = Some (utc 2024 1 5 0 0 0)
   \<and> group_dates fromisoformat_utc clock
        [mk_gap 2 (Some ''2024-01-02T09:00:00Z'') 1 3
           (Some ''2024-01-01T00:00:00Z'') (Some ''2024-01-05T00:00:00Z'')]
       = Inr [utc 2024 1 3 0 0 0]
   \<and> spec_gap_date fromisoformat_utc (utc 2024 1 1 0 0 0) (utc 2024 1 5 0 0 0) 1 1
        (Some ''2024-01-02T09:00:00Z'') = utc 2024 1 3 0 0 0"
proof -
  let ?g = "mk_gap 2 (Some ''2024-01-02T09:00:00Z'') 1 3
           (Some ''2024-01-01T00:00:00Z'') (Some ''2024-01-05T00:00:00Z'')"
  have 1: "parse_datetime fromisoformat_utc (prev_watched_at ?g) = Some (utc 2024 1 1 0 0 0)"
    by code_simp
  have 2: "parse_datetime fromisoformat_utc (next_watched_at ?g) = Some (utc 2024 1 5 0 0 0)"
    by code_simp
  have 3: "group_dates fromisoformat_utc clock [?g] = Inr [utc 2024 1 3 0 0 0]"
    by code_simp
  have 4: "(0::nat) < length [?g]" by simp
  have 5: "us (dt_add (utc 2024 1 1 0 0 0)
      (td_truediv (us (utc 2024 1 5 0 0 0) - us (utc 2024 1 1 0 0 0)) (int (length [?g]) + 1)
         * int (Suc 0))) \<le> us (utc 2024 1 5 0 0 0)"
    by code_simp
  have 6: "first_aired (sort_key ep_tuple [?g] ! 0) = Some ''2024-01-02T09:00:00Z''"
    by code_simp
  from gap_run_interpolation [OF refl 1 2 3 4] 5
  have "[utc 2024 1 3 0 0 0] ! 0 = spec_gap_date fromisoformat_utc (utc 2024 1 1 0 0 0)
      (utc 2024 1 5 0 0 0) (length [?g]) (Suc 0) (first_aired (sort_key ep_tuple [?g] ! 0))"
    by blast
  then have "spec_gap_date fromisoformat_utc (utc 2024 1 1 0 0 0) (utc 2024 1 5 0 0 0) 1 1
        (Some ''2024-01-02T09:00:00Z'') = utc 2024 1 3 0 0 0"
    unfolding 6 by simp
  with 1 2 3 show ?thesis by (simp add: mk_gap_def)
qed

text \<open>
  Claim C4 as stated fails when the proposal itself is past \<open>next_ts\<close>, as it is when the
  previous neighbour was watched after the next one. Of the two entries below, the first
  has an early air date: the clamp leaves its proposal 2024-01-08T08:00Z alone, and the
  code still moves it to \<open>next_ts\<close> minus 30 minutes. The second has no air date and keeps
  its proposal 2024-01-06T16:00Z although it is past \<open>next_ts\<close>.
\<close>

theorem gap_run_reassign_counterexample:
  "calculate_intelligent_dates_for_gaps fromisoformat_utc clock
     [mk_gap 2 (Some ''2024-01-01T00:00:00Z'') 1 4
        (Some ''2024-01-10T00:00:00Z'') (Some ''2024-01-05T00:00:00Z''),
      mk_gap 3 None 1 4 (Some ''2024-01-10T00:00:00Z'') (Some ''2024-01-05T00:00:00Z'')]
   = Inr [(mk_gap 2 (Some ''2024-01-01T00:00:00Z'') 1 4
             (Some ''2024-01-10T00:00:00Z'') (Some ''2024-01-05T00:00:00Z''),
           Some (utc 2024 1 4 23 30 0)),
          (mk_gap 3 None 1 4 (Some ''2024-01-10T00:00:00Z'') (Some ''2024-01-05T00:00:00Z''),
           Some (utc 2024 1 6 16 0 0))]
   \<and> spec_gap_date fromisoformat_utc (utc 2024 1 10 0 0 0) (utc 2024 1 5 0 0 0) 2 1
       (Some ''2024-01-01T00:00:00Z'') = utc 2024 1 8 8 0 0
   \<and> spec_gap_date_alt fromisoformat_utc (utc 2024 1 10 0 0 0) (utc 2024 1 5 0 0 0) 2 2 None
       = utc 2024 1 5 0 0 0
   \<and> utc 2024 1 4 23 30 0 \<noteq> utc 2024 1 8 8 0 0 \<and> utc 2024 1 6 16 0 0 \<noteq> utc 2024 1 5 0 0 0"
  by code_simp

lemma clamp_to_air_Inr:
  assumes "clamp_to_air fromiso d fa = Inr r"
  shows "r = spec_clamped fromiso d fa" and "aware r = aware d" and "us d \<le> us r"
    and "parse_datetime fromiso fa = Some a \<Longrightarrow> us r = max (us d) (us a + hours 12)"
    and "parse_datetime fromiso fa = None \<Longrightarrow> r = d"
  using assms
  by (auto simp: clamp_to_air_def spec_clamped_def dt_less_def Let_def
      split: option.splits if_splits)

lemma beginning_Inr:
  assumes "calculate_dates_for_beginning fromiso now eps fw avg = Inr out"
  defines "srt \<equiv> sort_key ep_tuple eps"
  shows "map fst out = srt"
    and "k < length eps \<Longrightarrow>
      beginning_date fromiso (beginning_anchor fromiso now srt fw) avg (length eps - k)
        (first_aired (srt ! k)) = Inr (snd (out ! k))"
proof -
  let ?body = "\<lambda>idx ep. beginning_date fromiso (beginning_anchor fromiso now srt fw) avg idx
      (first_aired ep)"
  from assms(1) obtain ds where ds: "for_enumerate ?body 1 (rev srt) = Inr ds"
    and out: "out = zip srt (rev ds)"
    by (auto simp: calculate_dates_for_beginning_def Let_def srt_def split: sum.splits)
  note fe = for_enumerate_Inr [OF ds]
  have len: "length ds = length eps" using fe by (simp add: srt_def)
  show "map fst out = srt" unfolding out using len by (simp add: srt_def)
  assume k: "k < length eps"
  let ?j = "length eps - 1 - k"
  have j: "?j < length (rev srt)" using k by (simp add: srt_def)
  from fe j have "?body (1 + ?j) (rev srt ! ?j) = Inr (ds ! ?j)" by blast
  moreover have "rev srt ! ?j = srt ! k" using k by (simp add: rev_nth srt_def)
  moreover have "1 + ?j = length eps - k" using k by simp
  moreover have "snd (out ! k) = ds ! ?j" unfolding out using k len
    by (simp add: rev_nth srt_def)
  ultimately show "beginning_date fromiso (beginning_anchor fromiso now srt fw) avg (length eps - k)
        (first_aired (srt ! k)) = Inr (snd (out ! k))" by simp
qed

lemma ending_Inr:
  assumes "calculate_dates_for_ending fromiso now eps lw avg = Inr out"
  defines "srt \<equiv> sort_key ep_tuple eps"
  shows "map fst out = srt"
    and "k < length eps \<Longrightarrow>
      ending_date fromiso (ending_anchor fromiso now srt lw) avg (Suc k)
        (first_aired (srt ! k)) = Inr (snd (out ! k))"
proof -
  let ?body = "\<lambda>idx ep. ending_date fromiso (ending_anchor fromiso now srt lw) avg idx
      (first_aired ep)"
  from assms(1) obtain ds where ds: "for_enumerate ?body 1 srt = Inr ds"
    and out: "out = zip srt ds"
    by (auto simp: calculate_dates_for_ending_def Let_def srt_def split: sum.splits)
  note fe = for_enumerate_Inr [OF ds]
  have len: "length ds = length eps" using fe by (simp add: srt_def)
  show "map fst out = srt" unfolding out using len by (simp add: srt_def)
  assume k: "k < length eps"
  then have "k < length srt" by (simp add: srt_def)
  with fe have "?body (1 + k) (srt ! k) = Inr (ds ! k)" by blast
  moreover have "snd (out ! k) = ds ! k" unfolding out using k len by (simp add: srt_def)
  ultimately show "ending_date fromiso (ending_anchor fromiso now srt lw) avg (Suc k)
        (first_aired (srt ! k)) = Inr (snd (out ! k))" by simp
qed

lemma beginning_date_Inr:
  assumes "beginning_date fromiso anchor avg idx fa = Inr d"
  shows "\<exists>a. anchor = Some a \<and> clamp_to_air fromiso (dt_sub a (avg * int idx)) fa = Inr d"
  using assms by (cases anchor) (simp_all add: beginning_date_def)

lemma ending_date_Inr:
  assumes "ending_date fromiso anchor avg idx fa = Inr d"
  shows "\<exists>a. anchor = Some a \<and> clamp_to_air fromiso (dt_add a (avg * int idx)) fa = Inr d"
  using assms by (cases anchor) (simp_all add: ending_date_def)

lemma group_dates_prev_only:
  assumes "grp = g0 # rest"
    and "parse_datetime fromiso (prev_watched_at g0) = Some p"
    and "parse_datetime fromiso (next_watched_at g0) = None"
    and "group_dates fromiso now grp = Inr ds" and "i < length grp"
  shows "length ds = length grp"
    and "clamp_to_air fromiso (dt_add p (days (int (Suc i) * 2)))
           (first_aired (sort_key ep_tuple grp ! i)) = Inr (ds ! i)"
proof -
  from assms(1-4) have "for_enumerate
      (\<lambda>idx gap. clamp_to_air fromiso (dt_add p (days (int idx * 2))) (first_aired gap))
      1 (sort_key ep_tuple grp) = Inr ds"
    by (simp add: group_dates_def Let_def)
  note fe = for_enumerate_Inr [OF this]
  from fe show "length ds = length grp" by simp
  from fe assms(5) show "clamp_to_air fromiso (dt_add p (days (int (Suc i) * 2)))
           (first_aired (sort_key ep_tuple grp ! i)) = Inr (ds ! i)"
    by simp
qed

lemma group_dates_next_only:
  assumes "grp = g0 # rest"
    and "parse_datetime fromiso (prev_watched_at g0) = None"
    and "parse_datetime fromiso (next_watched_at g0) = Some n"
    and "group_dates fromiso now grp = Inr ds" and "i < length grp"
  shows "length ds = length grp"
    and "clamp_to_air fromiso (dt_sub n (days (int (length grp - i) * 2)))
           (first_aired (sort_key ep_tuple grp ! i)) = Inr (ds ! i)"
proof -
  let ?srt = "sort_key ep_tuple grp"
  from assms(1-4) obtain rs where rs: "for_enumerate
      (\<lambda>idx gap. clamp_to_air fromiso (dt_sub n (days (int idx * 2))) (first_aired gap))
      1 (rev ?srt) = Inr rs" and ds: "ds = rev rs"
    by (auto simp: group_dates_def Let_def split: sum.splits)
  note fe = for_enumerate_Inr [OF rs]
  have len: "length rs = length grp" using fe by simp
  then show "length ds = length grp" by (simp add: ds)
  let ?j = "length grp - 1 - i"
  have j: "?j < length (rev ?srt)" using assms(5) by simp
  from fe j have "clamp_to_air fromiso (dt_sub n (days (int (1 + ?j) * 2)))
      (first_aired (rev ?srt ! ?j)) = Inr (rs ! ?j)" by blast
  moreover have "rev ?srt ! ?j = ?srt ! i" using assms(5) by (simp add: rev_nth)
  moreover have "1 + ?j = length grp - i" using assms(5) by simp
  moreover have "ds ! i = rs ! ?j" unfolding ds using assms(5) len by (simp add: rev_nth)
  ultimately show "clamp_to_air fromiso (dt_sub n (days (int (length grp - i) * 2)))
           (first_aired (sort_key ep_tuple grp ! i)) = Inr (ds ! i)"
    by simp
qed

lemma group_dates_neither:
  assumes "grp = g0 # rest"
    and "parse_datetime fromiso (prev_watched_at g0) = None"
    and "parse_datetime fromiso (next_watched_at g0) = None"
    and "group_dates fromiso now grp = Inr ds" and "i < length grp"
  shows "length ds = length grp"
    and "ds ! i = gap_date_neither fromiso now (length grp) i
           (first_aired (sort_key ep_tuple grp ! i))"
proof -
  from assms(1-4) have "for_enumerate
      (\<lambda>idx gap. Inr (gap_date_neither fromiso now (length grp) idx (first_aired gap)))
      0 (sort_key ep_tuple grp) = Inr ds"
    by (simp add: group_dates_def Let_def)
  note fe = for_enumerate_Inr [OF this]
  from fe show "length ds = length grp" by simp
  from fe assms(5) show "ds ! i = gap_date_neither fromiso now (length grp) i
           (first_aired (sort_key ep_tuple grp ! i))"
    by simp
qed

lemma gap_date_neither_floor:
  "parse_datetime fromiso fa = Some a \<Longrightarrow>
   us a + hours 12 \<le> us (gap_date_neither fromiso now c i fa)"
  by (simp add: gap_date_neither_def days_def hours_def)

lemma group_dates_floor:
  assumes grp: "grp = g0 # rest"
    and res: "group_dates fromiso now grp = Inr ds" and i: "i < length grp"
    and air: "parse_datetime fromiso (first_aired (sort_key ep_tuple grp ! i)) = Some a"
  shows "us a + hours 12 \<le> us (ds ! i)
     \<or> (\<exists>p n. parse_datetime fromiso (prev_watched_at g0) = Some p
             \<and> parse_datetime fromiso (next_watched_at g0) = Some n
             \<and> us n < max (us p + td_truediv (us n - us p) (int (length grp) + 1) * int (Suc i))
                          (us a + hours 12)
             \<and> ds ! i = dt_sub n (minutes (30 * (int (length grp) - int (Suc i)))))"
proof (cases "parse_datetime fromiso (prev_watched_at g0)")
  case None
  note P = this
  show ?thesis
  proof (cases "parse_datetime fromiso (next_watched_at g0)")
    case None
    from group_dates_neither(2) [OF grp P None res i] gap_date_neither_floor [OF air]
    show ?thesis by simp
  next
    case (Some n)
    from clamp_to_air_Inr(4) [OF group_dates_next_only(2) [OF grp P Some res i] air]
    show ?thesis by simp
  qed
next
  case (Some p)
  note P = this
  show ?thesis
  proof (cases "parse_datetime fromiso (next_watched_at g0)")
    case None
    from clamp_to_air_Inr(4) [OF group_dates_prev_only(2) [OF grp P None res i] air]
    show ?thesis by simp
  next
    case (Some n)
    from gap_run_entry(2) [OF grp P Some res i] air
    have "ds ! i = (if us n < us (spec_clamped fromiso
            (dt_add p (td_truediv (us n - us p) (int (length grp) + 1) * int (Suc i)))
            (first_aired (sort_key ep_tuple grp ! i)))
         then dt_sub n (minutes (30 * (int (length grp) - int (Suc i))))
         else spec_clamped fromiso
            (dt_add p (td_truediv (us n - us p) (int (length grp) + 1) * int (Suc i)))
            (first_aired (sort_key ep_tuple grp ! i)))"
      by simp
    moreover have "us (spec_clamped fromiso
            (dt_add p (td_truediv (us n - us p) (int (length grp) + 1) * int (Suc i)))
            (first_aired (sort_key ep_tuple grp ! i)))
        = max (us p + td_truediv (us n - us p) (int (length grp) + 1) * int (Suc i))
              (us a + hours 12)"
      using air by (simp add: spec_clamped_def)
    ultimately show ?thesis using P Some by (auto simp: max_def split: if_splits)
  qed
qed

lemma beginning_floor:
  assumes "calculate_dates_for_beginning fromiso now eps fw avg = Inr out"
    and "(e, d) \<in> set out" and "parse_datetime fromiso (first_aired e) = Some a"
  shows "us a + hours 12 \<le> us d"
proof -
  note b = beginning_Inr [OF assms(1)]
  have len: "length out = length eps" using arg_cong [OF b(1), of length] by simp
  from assms(2) obtain k where k: "k < length out" "out ! k = (e, d)"
    by (auto simp: in_set_conv_nth)
  have "e = sort_key ep_tuple eps ! k"
    using b(1) k by (metis fst_conv nth_map)
  with b(2) [of k] k len obtain an where
    "clamp_to_air fromiso (dt_sub an (avg * int (length eps - k))) (first_aired e) = Inr d"
    using beginning_date_Inr by fastforce
  from clamp_to_air_Inr(4) [OF this assms(3)] show ?thesis by simp
qed

lemma ending_floor:
  assumes "calculate_dates_for_ending fromiso now eps lw avg = Inr out"
    and "(e, d) \<in> set out" and "parse_datetime fromiso (first_aired e) = Some a"
  shows "us a + hours 12 \<le> us d"
proof -
  note b = ending_Inr [OF assms(1)]
  have len: "length out = length eps" using arg_cong [OF b(1), of length] by simp
  from assms(2) obtain k where k: "k < length out" "out ! k = (e, d)"
    by (auto simp: in_set_conv_nth)
  have "e = sort_key ep_tuple eps ! k"
    using b(1) k by (metis fst_conv nth_map)
  with b(2) [of k] k len obtain an where
    "clamp_to_air fromiso (dt_add an (avg * int (Suc k))) (first_aired e) = Inr d"
    using ending_date_Inr by fastforce
  from clamp_to_air_Inr(4) [OF this assms(3)] show ?thesis by simp
qed

text \<open>
  Claim C2, amended. The clamp replaces a proposal below the floor by the floor exactly
  and leaves every other proposal alone. Every date that beginning extrapolation and
  ending extrapolation return for an episode with a known air date is at or above the
  floor, the air date plus 12 hours. So is every date of a gap run, with one exception:
  in a run with both neighbour timestamps known, an entry whose date after the clamp is
  past \<open>next_ts\<close> gets \<open>next_ts\<close> minus \<open>30 * (count - i)\<close> minutes instead, which may
  lie below the floor.
\<close>

theorem synthesized_date_floor:
  "(clamp_to_air fromiso proposed fa = Inr r \<and> parse_datetime fromiso fa = Some a
      \<longrightarrow> us r = max (us proposed) (us a + hours 12))
   \<and> (calculate_dates_for_beginning fromiso now eps fw avg = Inr out
        \<and> (e, d) \<in> set out \<and> parse_datetime fromiso (first_aired e) = Some a
      \<longrightarrow> us a + hours 12 \<le> us d)
   \<and> (calculate_dates_for_ending fromiso now eps' lw avg' = Inr out'
        \<and> (e', d') \<in> set out' \<and> parse_datetime fromiso (first_aired e') = Some a
      \<longrightarrow> us a + hours 12 \<le> us d')
   \<and> (group_dates fromiso now (g0 # rest) = Inr ds \<and> i < length (g0 # rest)
        \<and> parse_datetime fromiso (first_aired (sort_key ep_tuple (g0 # rest) ! i)) = Some a
      \<longrightarrow> us a + hours 12 \<le> us (ds ! i)
          \<or> (\<exists>p n. parse_datetime fromiso (prev_watched_at g0) = Some p
                  \<and> parse_datetime fromiso (next_watched_at g0) = Some n
                  \<and> us n < max (us p + td_truediv (us n - us p) (int (length (g0 # rest)) + 1)
                                        * int (Suc i))
                               (us a + hours 12)
                  \<and> ds ! i = dt_sub n (minutes (30 * (int (length (g0 # rest)) - int (Suc i))))))"
  using clamp_to_air_Inr(4) [of fromiso proposed fa r a]
    beginning_floor [of fromiso now eps fw avg out e d a]
    ending_floor [of fromiso now eps' lw avg' out' e' d' a]
    group_dates_floor [OF refl, of fromiso now g0 rest ds i a]
  by blast

theorem synthesized_date_floor_witness:
  "clamp_to_air fromisoformat_utc (utc 2024 1 3 0 0 0) (Some ''2024-01-04T18:00:00Z'')
     = Inr (utc 2024 1 5 6 0 0)
   \<and> parse_datetime fromisoformat_utc (Some ''2024-01-04T18:00:00Z'') = Some (utc 2024 1 4 18 0 0)
   \<and> us (utc 2024 1 5 6 0 0) = max (us (utc 2024 1 3 0 0 0)) (us (utc 2024 1 4 18 0 0) + hours 12)
   \<and> calculate_dates_for_beginning fromisoformat_utc clock
        [mk_ep 1 (Some ''2024-01-04T18:00:00Z'')] (Some ''2024-02-01T00:00:00Z'') (days 30)
       = Inr [(mk_ep 1 (Some ''2024-01-04T18:00:00Z''), utc 2024 1 5 6 0 0)]
   \<and> calculate_dates_for_ending fromisoformat_utc clock
        [mk_ep 1 (Some ''2024-01-04T18:00:00Z'')] (Some ''2024-01-01T00:00:00Z'') (days 2)
       = Inr [(mk_ep 1 (Some ''2024-01-04T18:00:00Z''), utc 2024 1 5 6 0 0)]
   \<and> group_dates fromisoformat_utc clock
        [mk_gap 2 (Some ''2024-01-04T18:00:00Z'') 1 3 (Some ''2024-01-01T00:00:00Z'') None]
       = Inr [utc 2024 1 5 6 0 0]
   \<and> us (utc 2024 1 4 18 0 0) + hours 12 \<le> us (utc 2024 1 5 6 0 0)"
proof -
  let ?e = "mk_ep 1 (Some ''2024-01-04T18:00:00Z'')"
  let ?g = "mk_gap 2 (Some ''2024-01-04T18:00:00Z'') 1 3 (Some ''2024-01-01T00:00:00Z'') None"
  have c: "clamp_to_air fromisoformat_utc (utc 2024 1 3 0 0 0) (Some ''2024-01-04T18:00:00Z'')
     = Inr (utc 2024 1 5 6 0 0)" by code_simp
  have p: "parse_datetime fromisoformat_utc (Some ''2024-01-04T18:00:00Z'')
     = Some (utc 2024 1 4 18 0 0)" by code_simp
  have b: "calculate_dates_for_beginning fromisoformat_utc clock [?e]
       (Some ''2024-02-01T00:00:00Z'') (days 30) = Inr [(?e, utc 2024 1 5 6 0 0)]" by code_simp
  have e: "calculate_dates_for_ending fromisoformat_utc clock [?e]
       (Some ''2024-01-01T00:00:00Z'') (days 2) = Inr [(?e, utc 2024 1 5 6 0 0)]" by code_simp
  have g: "group_dates fromisoformat_utc clock [?g] = Inr [utc 2024 1 5 6 0 0]" by code_simp
  have fe: "first_aired ?e = Some ''2024-01-04T18:00:00Z''" by (simp add: mk_ep_def)
  have 1: "us (utc 2024 1 5 6 0 0) = max (us (utc 2024 1 3 0 0 0)) (us (utc 2024 1 4 18 0 0) + hours 12)"
    using synthesized_date_floor [THEN conjunct1, rule_format, OF conjI, OF c p] .
  have 2: "us (utc 2024 1 4 18 0 0) + hours 12 \<le> us (utc 2024 1 5 6 0 0)"
    using synthesized_date_floor [THEN conjunct2, THEN conjunct1, rule_format,
        of fromisoformat_utc clock "[?e]" "Some ''2024-02-01T00:00:00Z''" "days 30"
           "[(?e, utc 2024 1 5 6 0 0)]" ?e "utc 2024 1 5 6 0 0" "utc 2024 1 4 18 0 0"]
      b p fe by simp
  from c p 1 b e g 2 show ?thesis by blast
qed

text \<open>
  Claim C2 as stated fails in gap interpolation, on the numbers of the specification's own
  clamp example: an episode first aired 2024-01-04T18:00Z, alone between neighbours
  watched 2024-01-01T00:00Z and 2024-01-05T00:00Z. The floor 2024-01-05T06:00Z is past
  \<open>next_ts\<close>, and the entry gets \<open>next_ts\<close> itself, six hours below the floor.
\<close>

theorem synthesized_date_floor_counterexample:
  "calculate_intelligent_dates_for_gaps fromisoformat_utc clock
     [mk_gap 2 (Some ''2024-01-04T18:00:00Z'') 1 3
        (Some ''2024-01-01T00:00:00Z'') (Some ''2024-01-05T00:00:00Z'')]
   = Inr [(mk_gap 2 (Some ''2024-01-04T18:00:00Z'') 1 3
             (Some ''2024-01-01T00:00:00Z'') (Some ''2024-01-05T00:00:00Z''),
           Some (utc 2024 1 5 0 0 0))]
   \<and> parse_datetime fromisoformat_utc (Some ''2024-01-04T18:00:00Z'') = Some (utc 2024 1 4 18 0 0)
   \<and> us (utc 2024 1 5 0 0 0) < us (utc 2024 1 4 18 0 0) + hours 12"
  by code_simp

subsection \<open>Beginning extrapolation\<close>

text \<open>
  What \<^verbatim>\<open>calculate_dates_for_beginning\<close> returns: the episodes in episode order, the
  one at index \<open>k\<close> of \<open>n\<close> dated \<open>anchor - avg * (n - k)\<close> and then clamped to air. The
  anchor is the parsed first-watched timestamp when one is given; otherwise the air date,
  plus 30 days, of the first episode with a parseable air date met when walking the
  sorted list from its end; otherwise the clock reading.
\<close>

lemma beginning_dates:
  assumes "calculate_dates_for_beginning fromiso now eps fw avg = Inr out"
    and "k < length eps"
  shows "\<exists>a. beginning_anchor fromiso now (sort_key ep_tuple eps) fw = Some a
           \<and> out ! k = (sort_key ep_tuple eps ! k,
                spec_clamped fromiso (dt_sub a (avg * int (length eps - k)))
                  (first_aired (sort_key ep_tuple eps ! k)))"
proof -
  note b = beginning_Inr [OF assms(1)]
  from beginning_date_Inr [OF b(2) [OF assms(2)]] obtain a where
    a: "beginning_anchor fromiso now (sort_key ep_tuple eps) fw = Some a"
    "clamp_to_air fromiso (dt_sub a (avg * int (length eps - k)))
       (first_aired (sort_key ep_tuple eps ! k)) = Inr (snd (out ! k))" by blast
  have "length out = length eps" using arg_cong [OF b(1), of length] by simp
  with assms(2) b(1) have "fst (out ! k) = sort_key ep_tuple eps ! k" by (metis nth_map)
  with clamp_to_air_Inr(1) [OF a(2)] a(1) show ?thesis
    by (intro exI [of _ a]) (simp add: prod_eq_iff)
qed

lemma beginning_anchor_cases:
  "truthy fw \<Longrightarrow> beginning_anchor fromiso now eps fw = parse_datetime fromiso fw"
  "\<not> truthy fw \<Longrightarrow> first_air fromiso (rev eps) = Some la \<Longrightarrow>
     beginning_anchor fromiso now eps fw = Some (dt_add la (days 30))"
  "\<not> truthy fw \<Longrightarrow> first_air fromiso (rev eps) = None \<Longrightarrow>
     beginning_anchor fromiso now eps fw = Some now"
  by (simp_all add: beginning_anchor_def)

lemma beginning_unparseable_first_watched:
  assumes "truthy fw" "parse_datetime fromiso fw = None" "eps \<noteq> []"
  shows "calculate_dates_for_beginning fromiso now eps fw avg = Inl TypeError"
proof -
  have "rev (sort_key ep_tuple eps) \<noteq> []" using assms(3) by (metis length_sort length_0_conv rev_is_Nil_conv)
  then obtain x xs where "rev (sort_key ep_tuple eps) = x # xs" by (cases "rev (sort_key ep_tuple eps)") auto
  then show ?thesis using assms(1,2)
    by (simp add: calculate_dates_for_beginning_def beginning_anchor_def beginning_date_def)
qed

lemma beginning_example:
  "calculate_dates_for_beginning fromisoformat_utc clock
     [mk_ep 1 None, mk_ep 2 None, mk_ep 3 None] (Some ''2024-02-01T00:00:00Z'') (days 2)
   = Inr [(mk_ep 1 None, utc 2024 1 26 0 0 0), (mk_ep 2 None, utc 2024 1 28 0 0 0),
          (mk_ep 3 None, utc 2024 1 30 0 0 0)]"
  by code_simp

text \<open>
  Claim C7. The sorting, the reverse walk, the formula and the example of the claim hold
  (\<open>beginning_dates\<close>, \<open>beginning_anchor_cases\<close>, \<open>beginning_example\<close>). The anchor without
  a first-watched timestamp is not the latest air date of the set plus 30 days, which is
  also what the comment \<^verbatim>\<open># No watch history, use most recent air date + some time\<close>
  announces: the loop over \<^verbatim>\<open>reversed(episodes)\<close> stops at the last episode, in episode
  order, that has an air date. For episode 1 first aired 2024-01-20 and episode 2 first
  aired 2024-01-01 the anchor is 2024-01-31 and the dates are 2024-01-27 and 2024-01-29;
  the latest air date plus 30 days is 2024-02-19.
\<close>

theorem beginning_anchor_not_latest_air:
  "beginning_anchor fromisoformat_utc clock
     [mk_ep 1 (Some ''2024-01-20T00:00:00Z''), mk_ep 2 (Some ''2024-01-01T00:00:00Z'')] None
   = Some (utc 2024 1 31 0 0 0)
   \<and> calculate_dates_for_beginning fromisoformat_utc clock
     [mk_ep 1 (Some ''2024-01-20T00:00:00Z''), mk_ep 2 (Some ''2024-01-01T00:00:00Z'')] None (days 2)
   = Inr [(mk_ep 1 (Some ''2024-01-20T00:00:00Z''), utc 2024 1 27 0 0 0),
          (mk_ep 2 (Some ''2024-01-01T00:00:00Z''), utc 2024 1 29 0 0 0)]
   \<and> dt_add (utc 2024 1 20 0 0 0) (days 30) = utc 2024 2 19 0 0 0"
  by code_simp

subsection \<open>Order of the synthesized dates within one region\<close>

lemma air_dates_ordered_nth:
  "air_dates_ordered fromiso fas \<Longrightarrow> i < j \<Longrightarrow> j < length fas \<Longrightarrow>
   parse_datetime fromiso (fas ! i) = Some a \<Longrightarrow>
   \<exists>b. parse_datetime fromiso (fas ! j) = Some b \<and> us a \<le> us b"
proof (induction fas arbitrary: i j)
  case Nil
  then show ?case by simp
next
  case (Cons fa fas)
  show ?case
  proof (cases i)
    case 0
    with Cons.prems obtain j' where j': "j = Suc j'" "j' < length fas" by (cases j) auto
    from Cons.prems(1,4) 0 have "list_all (\<lambda>fb. case parse_datetime fromiso fb of
        None \<Rightarrow> False | Some b \<Rightarrow> us a \<le> us b) fas" by simp
    with j'(2) have "case parse_datetime fromiso (fas ! j') of
        None \<Rightarrow> False | Some b \<Rightarrow> us a \<le> us b" by (simp add: list_all_length)
    then show ?thesis unfolding j'(1) by (auto split: option.splits)
  next
    case (Suc i')
    with Cons.prems obtain j' where j': "j = Suc j'" "i' < j'" "j' < length fas" by (cases j) auto
    from Cons.IH [of i' j'] Cons.prems(1,4) Suc j' show ?thesis by simp
  qed
qed

lemma us_spec_clamped:
  "us (spec_clamped fromiso d fa) =
     (case parse_datetime fromiso fa of None \<Rightarrow> us d | Some a \<Rightarrow> max (us d) (us a + hours 12))"
  by (simp add: spec_clamped_def max_def split: option.splits)

lemma clamped_non_decreasing:
  assumes len: "length ds = length fas"
    and val: "\<And>k. k < length fas \<Longrightarrow> us (ds ! k) = us (spec_clamped fromiso (B k) (fas ! k))"
    and base: "\<And>i j. i < j \<Longrightarrow> j < length fas \<Longrightarrow> us (B i) \<le> us (B j)"
    and ord: "air_dates_ordered fromiso fas"
  shows "non_decreasing ds"
  unfolding non_decreasing_def sorted_iff_nth_mono_less
proof (intro allI impI)
  fix i j assume ij: "i < j" "j < length (map us ds)"
  then have j: "j < length fas" and i: "i < length fas" using len by simp_all
  have "us (spec_clamped fromiso (B i) (fas ! i)) \<le> us (spec_clamped fromiso (B j) (fas ! j))"
  proof (cases "parse_datetime fromiso (fas ! i)")
    case None
    then have "us (spec_clamped fromiso (B i) (fas ! i)) = us (B i)" by (simp add: us_spec_clamped)
    also have "\<dots> \<le> us (B j)" using base [OF ij(1) j] .
    also have "\<dots> \<le> us (spec_clamped fromiso (B j) (fas ! j))"
      by (simp add: us_spec_clamped split: option.splits)
    finally show ?thesis .
  next
    case (Some a)
    from air_dates_ordered_nth [OF ord ij(1) j Some] obtain b where
      b: "parse_datetime fromiso (fas ! j) = Some b" "us a \<le> us b" by blast
    with Some base [OF ij(1) j] show ?thesis by (simp add: us_spec_clamped max_def)
  qed
  then show "map us ds ! i \<le> map us ds ! j" using val i j len by simp
qed

lemma beginning_non_decreasing:
  assumes res: "calculate_dates_for_beginning fromiso now eps fw avg = Inr out"
    and avg: "0 \<le> avg"
    and ord: "air_dates_ordered fromiso (map first_aired (sort_key ep_tuple eps))"
  shows "non_decreasing (map snd out)"
proof (cases "eps = []")
  case True
  with beginning_Inr(1) [OF res] show ?thesis by (simp add: non_decreasing_def)
next
  case False
  then have "0 < length eps" by simp
  from beginning_dates [OF res this] obtain a where
    a: "beginning_anchor fromiso now (sort_key ep_tuple eps) fw = Some a" by blast
  have len: "length out = length eps" using arg_cong [OF beginning_Inr(1) [OF res], of length] by simp
  show ?thesis
  proof (rule clamped_non_decreasing [where B = "\<lambda>k. dt_sub a (avg * int (length eps - k))"
        and fas = "map first_aired (sort_key ep_tuple eps)", OF _ _ _ ord])
    show "length (map snd out) = length (map first_aired (sort_key ep_tuple eps))"
      using len by simp
  next
    fix k assume "k < length (map first_aired (sort_key ep_tuple eps))"
    then have k: "k < length eps" by simp
    from beginning_dates [OF res k] a k len
    show "us (map snd out ! k) = us (spec_clamped fromiso (dt_sub a (avg * int (length eps - k)))
        (map first_aired (sort_key ep_tuple eps) ! k))" by auto
  next
    fix i j assume "i < j" "j < length (map first_aired (sort_key ep_tuple eps))"
    then have "int (length eps - j) \<le> int (length eps - i)" by simp
    then have "avg * int (length eps - j) \<le> avg * int (length eps - i)"
      using avg by (rule mult_left_mono)
    then show "us (dt_sub a (avg * int (length eps - i))) \<le> us (dt_sub a (avg * int (length eps - j)))"
      by simp
  qed
qed

lemma ending_dates:
  assumes "calculate_dates_for_ending fromiso now eps lw avg = Inr out"
    and "k < length eps"
  shows "\<exists>a. ending_anchor fromiso now (sort_key ep_tuple eps) lw = Some a
           \<and> out ! k = (sort_key ep_tuple eps ! k,
                spec_clamped fromiso (dt_add a (avg * int (Suc k)))
                  (first_aired (sort_key ep_tuple eps ! k)))"
proof -
  note b = ending_Inr [OF assms(1)]
  from ending_date_Inr [OF b(2) [OF assms(2)]] obtain a where
    a: "ending_anchor fromiso now (sort_key ep_tuple eps) lw = Some a"
    "clamp_to_air fromiso (dt_add a (avg * int (Suc k)))
       (first_aired (sort_key ep_tuple eps ! k)) = Inr (snd (out ! k))" by blast
  have "length out = length eps" using arg_cong [OF b(1), of length] by simp
  with assms(2) b(1) have "fst (out ! k) = sort_key ep_tuple eps ! k" by (metis nth_map)
  with clamp_to_air_Inr(1) [OF a(2)] a(1) show ?thesis
    by (intro exI [of _ a]) (simp add: prod_eq_iff)
qed

lemma ending_non_decreasing:
  assumes res: "calculate_dates_for_ending fromiso now eps lw avg = Inr out"
    and avg: "0 \<le> avg"
    and ord: "air_dates_ordered fromiso (map first_aired (sort_key ep_tuple eps))"
  shows "non_decreasing (map snd out)"
proof (cases "eps = []")
  case True
  with ending_Inr(1) [OF res] show ?thesis by (simp add: non_decreasing_def)
next
  case False
  then have "0 < length eps" by simp
  from ending_dates [OF res this] obtain a where
    a: "ending_anchor fromiso now (sort_key ep_tuple eps) lw = Some a" by blast
  have len: "length out = length eps" using arg_cong [OF ending_Inr(1) [OF res], of length] by simp
  show ?thesis
  proof (rule clamped_non_decreasing [where B = "\<lambda>k. dt_add a (avg * int (Suc k))"
        and fas = "map first_aired (sort_key ep_tuple eps)", OF _ _ _ ord])
    show "length (map snd out) = length (map first_aired (sort_key ep_tuple eps))"
      using len by simp
  next
    fix k assume "k < length (map first_aired (sort_key ep_tuple eps))"
    then have k: "k < length eps" by simp
    from ending_dates [OF res k] a k len
    show "us (map snd out ! k) = us (spec_clamped fromiso (dt_add a (avg * int (Suc k)))
        (map first_aired (sort_key ep_tuple eps) ! k))" by auto
  next
    fix i j :: nat assume "i < j"
    then have "int (Suc i) \<le> int (Suc j)" by simp
    then have "avg * int (Suc i) \<le> avg * int (Suc j)"
      using avg by (rule mult_left_mono)
    then show "us (dt_add a (avg * int (Suc i))) \<le> us (dt_add a (avg * int (Suc j)))"
      by simp
  qed
qed

lemma slice_bounds_le:
  fixes T c :: int
  assumes "1 \<le> c" "c * (c + 1) \<le> 2 * T"
  defines "s \<equiv> td_truediv T (c + 1)"
  shows "0 \<le> s" and "c * s \<le> T"
proof -
  have b: "0 < c + 1" using assms(1) by simp
  note n = td_truediv_near [OF b, of T, folded s_def]
  have "0 \<le> c * (c + 1)" using assms(1) by simp
  with assms(2) have T: "0 \<le> T" by simp
  then have "0 * (c + 1) \<le> T" by simp
  from td_truediv_bounds [OF b this, of T] T b show "0 \<le> s"
    unfolding s_def by (simp add: mult_le_cancel_left1 mult.commute)
  have "2 * ((c + 1) * (c * s)) = c * (2 * ((c + 1) * s))" by (simp add: algebra_simps)
  also have "\<dots> \<le> c * (2 * T + (c + 1))"
    using n assms(1) by (intro mult_left_mono) simp_all
  also have "\<dots> = 2 * T * c + c * (c + 1)" by (simp add: algebra_simps)
  also have "\<dots> \<le> 2 * T * c + 2 * T" using assms(2) by simp
  also have "\<dots> = 2 * ((c + 1) * T)" by (simp add: algebra_simps)
  finally have "(c + 1) * (c * s) \<le> (c + 1) * T" by simp
  then show "c * s \<le> T" using b by (simp add: mult_le_cancel_left_pos)
qed

lemma group_non_decreasing:
  assumes grp: "grp = g0 # rest"
    and res: "group_dates fromiso now grp = Inr ds"
    and ord: "air_dates_ordered fromiso (map first_aired (sort_key ep_tuple grp))"
    and reg: "gap_run_regular fromiso g0 grp"
  shows "non_decreasing ds"
proof -
  let ?grp = "grp"
  let ?srt = "sort_key ep_tuple ?grp"
  let ?fas = "map first_aired ?srt"
  let ?c = "length ?grp"
  have fas_nth: "?fas ! k = first_aired (?srt ! k)" if "k < ?c" for k using that by simp
  show ?thesis
  proof (cases "parse_datetime fromiso (prev_watched_at g0)")
    case None
    note P = this
    show ?thesis
    proof (cases "parse_datetime fromiso (next_watched_at g0)")
      case None
      note N = this
      have len: "length ds = ?c" using group_dates_neither(1) [OF grp P N res, where i = 0] grp by simp
      have val: "ds ! k = gap_date_neither fromiso now ?c k (first_aired (?srt ! k))"
        if "k < ?c" for k by (rule group_dates_neither(2) [OF grp P N res that])
      from reg P N consider
        (none) "list_all (\<lambda>g. parse_datetime fromiso (first_aired g) = None) ?grp"
        | (all) "list_all (\<lambda>g. parse_datetime fromiso (first_aired g) \<noteq> None) ?grp"
        by (auto simp: gap_run_regular_def)
      then show ?thesis
      proof cases
        case none
        have v: "us (ds ! k) = us now - days (int ?c - int k)" if "k < ?c" for k
        proof -
          have "?srt ! k \<in> set ?grp" using that by (metis nth_mem set_sort length_sort)
          with none have "parse_datetime fromiso (first_aired (?srt ! k)) = None"
            by (simp add: list_all_iff)
          then show ?thesis using val [OF that] by (simp add: gap_date_neither_def)
        qed
        show ?thesis unfolding non_decreasing_def sorted_iff_nth_mono_less
        proof (intro allI impI)
          fix i j assume ij: "i < j" "j < length (map us ds)"
          then have "i < ?c" "j < ?c" using len by simp_all
          with v ij(1) len show "map us ds ! i \<le> map us ds ! j" by (simp add: days_def)
        qed
      next
        case all
        show ?thesis unfolding non_decreasing_def sorted_iff_nth_mono_less
        proof (intro allI impI)
          fix i j assume ij: "i < j" "j < length (map us ds)"
          then have i: "i < ?c" and j: "j < ?c" using len by simp_all
          have "?srt ! i \<in> set ?grp" using i by (metis nth_mem set_sort length_sort)
          with all obtain a where a: "parse_datetime fromiso (first_aired (?srt ! i)) = Some a"
            by (auto simp: list_all_iff)
          from air_dates_ordered_nth [OF ord ij(1), of a] i j a obtain b where
            b: "parse_datetime fromiso (first_aired (?srt ! j)) = Some b" "us a \<le> us b"
            by auto
          have "min (int i + 1) 7 \<le> min (int j + 1) 7" using ij(1) by simp
          then have "days (min (int i + 1) 7) \<le> days (min (int j + 1) 7)"
            unfolding days_def by (rule mult_right_mono) simp
          then have "us (gap_date_neither fromiso now ?c i (first_aired (?srt ! i)))
              \<le> us (gap_date_neither fromiso now ?c j (first_aired (?srt ! j)))"
            using a b by (simp add: gap_date_neither_def)
          then show "map us ds ! i \<le> map us ds ! j" using val i j len by simp
        qed
      qed
    next
      case (Some n)
      have len: "length ds = ?c" using group_dates_next_only(1) [OF grp P Some res, where i = 0] grp by simp
      show ?thesis
      proof (rule clamped_non_decreasing [where B = "\<lambda>k. dt_sub n (days (int (?c - k) * 2))"
            and fas = ?fas, OF _ _ _ ord])
        show "length ds = length ?fas" using len by simp
      next
        fix k assume "k < length ?fas"
        then have k: "k < ?c" by simp
        from clamp_to_air_Inr(1) [OF group_dates_next_only(2) [OF grp P Some res k]] k
        show "us (ds ! k) = us (spec_clamped fromiso (dt_sub n (days (int (?c - k) * 2))) (?fas ! k))"
          by simp
      next
        fix i j assume "i < j" "j < length ?fas"
        then show "us (dt_sub n (days (int (?c - i) * 2))) \<le> us (dt_sub n (days (int (?c - j) * 2)))"
          by (simp add: days_def)
      qed
    qed
  next
    case (Some p)
    note P = this
    show ?thesis
    proof (cases "parse_datetime fromiso (next_watched_at g0)")
      case None
      have len: "length ds = ?c" using group_dates_prev_only(1) [OF grp P None res, where i = 0] grp by simp
      show ?thesis
      proof (rule clamped_non_decreasing [where B = "\<lambda>k. dt_add p (days (int (Suc k) * 2))"
            and fas = ?fas, OF _ _ _ ord])
        show "length ds = length ?fas" using len by simp
      next
        fix k assume "k < length ?fas"
        then have k: "k < ?c" by simp
        from clamp_to_air_Inr(1) [OF group_dates_prev_only(2) [OF grp P None res k]] k
        show "us (ds ! k) = us (spec_clamped fromiso (dt_add p (days (int (Suc k) * 2))) (?fas ! k))"
          by simp
      next
        fix i j :: nat assume "i < j"
        then show "us (dt_add p (days (int (Suc i) * 2))) \<le> us (dt_add p (days (int (Suc j) * 2)))"
          by (simp add: days_def)
      qed
    next
      case (Some n)
      note N = this
      define s where "s = td_truediv (us n - us p) (int ?c + 1)"
      from reg P N have big: "int ?c * (int ?c + 1) \<le> 2 * (us n - us p)"
        and fl: "list_all (\<lambda>g. case parse_datetime fromiso (first_aired g) of
                              None \<Rightarrow> True | Some a \<Rightarrow> us a + hours 12 \<le> us n) ?grp"
        by (simp_all add: gap_run_regular_def)
      have c1: "1 \<le> int ?c" using grp by simp
      have s0: "0 \<le> s" and cs: "int ?c * s \<le> us n - us p"
        using slice_bounds_le [OF c1 big] by (simp_all add: s_def)
      have len: "length ds = ?c" using gap_run_entry(1) [OF grp P N res, where i = 0] grp by simp
      have bnd: "us (dt_add p (s * int (Suc k))) \<le> us n" if "k < ?c" for k
      proof -
        have "s * int (Suc k) \<le> s * int ?c" using that s0 by (intro mult_left_mono) simp_all
        also have "\<dots> \<le> us n - us p" using cs by (simp add: mult.commute)
        finally show ?thesis by simp
      qed
      have val: "ds ! k = spec_clamped fromiso (dt_add p (s * int (Suc k))) (first_aired (?srt ! k))"
        if k: "k < ?c" for k
      proof -
        have "?srt ! k \<in> set ?grp" using k by (metis nth_mem set_sort length_sort)
        with fl have f: "case parse_datetime fromiso (first_aired (?srt ! k)) of
            None \<Rightarrow> True | Some a \<Rightarrow> us a + hours 12 \<le> us n" by (simp add: list_all_iff)
        have "\<not> us n < us (spec_clamped fromiso (dt_add p (s * int (Suc k))) (first_aired (?srt ! k)))"
          using f bnd [OF k] by (auto simp: us_spec_clamped split: option.splits)
        with gap_run_entry(2) [OF grp P N res k] show ?thesis
          unfolding s_def by (auto simp: spec_clamped_def split: option.splits)
      qed
      show ?thesis
      proof (rule clamped_non_decreasing [where B = "\<lambda>k. dt_add p (s * int (Suc k))"
            and fas = ?fas, OF _ _ _ ord])
        show "length ds = length ?fas" using len by simp
      next
        fix k assume "k < length ?fas"
        then have k: "k < ?c" by simp
        with val [OF k]
        show "us (ds ! k) = us (spec_clamped fromiso (dt_add p (s * int (Suc k))) (?fas ! k))"
          by simp
      next
        fix i j :: nat assume "i < j"
        then have "int (Suc i) \<le> int (Suc j)" by simp
        then have "s * int (Suc i) \<le> s * int (Suc j)" using s0 by (rule mult_left_mono)
        then show "us (dt_add p (s * int (Suc i))) \<le> us (dt_add p (s * int (Suc j)))" by simp
      qed
    qed
  qed
qed

text \<open>
  Claim C3, amended. The dates of one region are non-decreasing in episode order under
  conditions on the input. For beginning and ending extrapolation: the average interval
  is not negative and the air dates are in episode order (after an episode with a
  parseable air date every later one has one too, and not an earlier one). For a gap
  run: the same condition on the air dates, and \<open>gap_run_regular\<close>, which asks, with both
  neighbour timestamps known, that \<open>count * (count + 1)\<close> is at most twice
  \<open>next_ts - prev_ts\<close> in microseconds and that every floor (air date plus 12 hours) is at
  most \<open>next_ts\<close>, so that no entry is reassigned; with neither known, that all or none
  of the entries have an air date; with one known, nothing more.
\<close>

theorem synthesized_dates_monotonic:
  "(calculate_dates_for_beginning fromiso now eps fw avg = Inr out \<and> 0 \<le> avg
      \<and> air_dates_ordered fromiso (map first_aired (sort_key ep_tuple eps))
      \<longrightarrow> non_decreasing (map snd out))
   \<and> (calculate_dates_for_ending fromiso now eps' lw avg' = Inr out' \<and> 0 \<le> avg'
      \<and> air_dates_ordered fromiso (map first_aired (sort_key ep_tuple eps'))
      \<longrightarrow> non_decreasing (map snd out'))
   \<and> (group_dates fromiso now (g0 # rest) = Inr ds
      \<and> air_dates_ordered fromiso (map first_aired (sort_key ep_tuple (g0 # rest)))
      \<and> gap_run_regular fromiso g0 (g0 # rest)
      \<longrightarrow> non_decreasing ds)"
  using beginning_non_decreasing [of fromiso now eps fw avg out]
    ending_non_decreasing [of fromiso now eps' lw avg' out']
    group_non_decreasing [OF refl, of fromiso now g0 rest ds]
  by blast

text \<open>
  The theorem at work on a beginning region, an ending region and a gap run, each with a
  clamped entry.
\<close>

theorem synthesized_dates_monotonic_witness:
  "calculate_dates_for_beginning fromisoformat_utc clock
     [mk_ep 1 None, mk_ep 2 (Some ''2024-01-28T00:00:00Z'')] (Some ''2024-02-01T00:00:00Z'') (days 5)
     = Inr [(mk_ep 1 None, utc 2024 1 22 0 0 0),
            (mk_ep 2 (Some ''2024-01-28T00:00:00Z''), utc 2024 1 28 12 0 0)]
   \<and> non_decreasing [utc 2024 1 22 0 0 0, utc 2024 1 28 12 0 0]
   \<and> calculate_dates_for_ending fromisoformat_utc clock
     [mk_ep 5 None, mk_ep 6 (Some ''2024-02-10T00:00:00Z'')] (Some ''2024-02-01T00:00:00Z'') (days 2)
     = Inr [(mk_ep 5 None, utc 2024 2 3 0 0 0),
            (mk_ep 6 (Some ''2024-02-10T00:00:00Z''), utc 2024 2 10 12 0 0)]
   \<and> non_decreasing [utc 2024 2 3 0 0 0, utc 2024 2 10 12 0 0]
   \<and> group_dates fromisoformat_utc clock
     [mk_gap 2 (Some ''2024-01-01T06:00:00Z'') 1 4
        (Some ''2024-01-01T00:00:00Z'') (Some ''2024-01-05T00:00:00Z''),
      mk_gap 3 (Some ''2024-01-04T00:00:00Z'') 1 4
        (Some ''2024-01-01T00:00:00Z'') (Some ''2024-01-05T00:00:00Z'')]
     = Inr [utc 2024 1 2 8 0 0, utc 2024 1 4 12 0 0]
   \<and> non_decreasing [utc 2024 1 2 8 0 0, utc 2024 1 4 12 0 0]"
proof -
  let ?b = "[mk_ep 1 None, mk_ep 2 (Some ''2024-01-28T00:00:00Z'')]"
  let ?e = "[mk_ep 5 None, mk_ep 6 (Some ''2024-02-10T00:00:00Z'')]"
  let ?g = "mk_gap 2 (Some ''2024-01-01T06:00:00Z'') 1 4
        (Some ''2024-01-01T00:00:00Z'') (Some ''2024-01-05T00:00:00Z'')"
  let ?r = "[mk_gap 3 (Some ''2024-01-04T00:00:00Z'') 1 4
        (Some ''2024-01-01T00:00:00Z'') (Some ''2024-01-05T00:00:00Z'')]"
  have b: "calculate_dates_for_beginning fromisoformat_utc clock ?b
      (Some ''2024-02-01T00:00:00Z'') (days 5)
     = Inr [(mk_ep 1 None, utc 2024 1 22 0 0 0),
            (mk_ep 2 (Some ''2024-01-28T00:00:00Z''), utc 2024 1 28 12 0 0)]" by code_simp
  have bo: "(0::int) \<le> days 5
      \<and> air_dates_ordered fromisoformat_utc (map first_aired (sort_key ep_tuple ?b))" by code_simp
  have e: "calculate_dates_for_ending fromisoformat_utc clock ?e
      (Some ''2024-02-01T00:00:00Z'') (days 2)
     = Inr [(mk_ep 5 None, utc 2024 2 3 0 0 0),
            (mk_ep 6 (Some ''2024-02-10T00:00:00Z''), utc 2024 2 10 12 0 0)]" by code_simp
  have eo: "(0::int) \<le> days 2
      \<and> air_dates_ordered fromisoformat_utc (map first_aired (sort_key ep_tuple ?e))" by code_simp
  have g: "group_dates fromisoformat_utc clock (?g # ?r)
     = Inr [utc 2024 1 2 8 0 0, utc 2024 1 4 12 0 0]" by code_simp
  have go: "air_dates_ordered fromisoformat_utc (map first_aired (sort_key ep_tuple (?g # ?r)))
      \<and> gap_run_regular fromisoformat_utc ?g (?g # ?r)" by code_simp
  note t = synthesized_dates_monotonic [of fromisoformat_utc clock]
  have 1: "non_decreasing [utc 2024 1 22 0 0 0, utc 2024 1 28 12 0 0]"
    using t [THEN conjunct1, rule_format, OF conjI [OF b bo]] by simp
  have 2: "non_decreasing [utc 2024 2 3 0 0 0, utc 2024 2 10 12 0 0]"
    using t [THEN conjunct2, THEN conjunct1, rule_format, OF conjI [OF e eo]] by simp
  have 3: "non_decreasing [utc 2024 1 2 8 0 0, utc 2024 1 4 12 0 0]"
    using t [THEN conjunct2, THEN conjunct2, rule_format, OF conjI [OF g go]] by simp
  from b e g 1 2 3 show ?thesis by blast
qed

text \<open>
  Claim C3 as stated fails. Three gap entries between neighbours watched
  2024-01-01T00:00Z and 2024-01-05T00:00Z, first aired 2024-01-04 at 11:50, 18:00 and
  19:00, in episode order. The first is clamped to 23:50; the second and the third are
  clamped past \<open>next_ts\<close> and reassigned \<open>next_ts\<close> minus 30 and minus 0 minutes: the
  second entry is dated 20 minutes before the first.
\<close>

theorem synthesized_dates_monotonic_counterexample:
  "calculate_intelligent_dates_for_gaps fromisoformat_utc clock
     [mk_gap 2 (Some ''2024-01-04T11:50:00Z'') 1 5
        (Some ''2024-01-01T00:00:00Z'') (Some ''2024-01-05T00:00:00Z''),
      mk_gap 3 (Some ''2024-01-04T18:00:00Z'') 1 5
        (Some ''2024-01-01T00:00:00Z'') (Some ''2024-01-05T00:00:00Z''),
      mk_gap 4 (Some ''2024-01-04T19:00:00Z'') 1 5
        (Some ''2024-01-01T00:00:00Z'') (Some ''2024-01-05T00:00:00Z'')]
   = Inr [(mk_gap 2 (Some ''2024-01-04T11:50:00Z'') 1 5
             (Some ''2024-01-01T00:00:00Z'') (Some ''2024-01-05T00:00:00Z''),
           Some (utc 2024 1 4 23 50 0)),
          (mk_gap 3 (Some ''2024-01-04T18:00:00Z'') 1 5
             (Some ''2024-01-01T00:00:00Z'') (Some ''2024-01-05T00:00:00Z''),
           Some (utc 2024 1 4 23 30 0)),
          (mk_gap 4 (Some ''2024-01-04T19:00:00Z'') 1 5
             (Some ''2024-01-01T00:00:00Z'') (Some ''2024-01-05T00:00:00Z''),
           Some (utc 2024 1 5 0 0 0))]
   \<and> \<not> non_decreasing [utc 2024 1 4 23 50 0, utc 2024 1 4 23 30 0, utc 2024 1 5 0 0 0]"
  by code_simp

end
